theory Spec2Isabelle
  imports Complex_Main "HOL-Library.Multiset"
begin

section \<open>State channel manager (src/lib/protocol/channel.ts, lines 1-241)\<close>

text \<open>
  The protocol types of \<^verbatim>\<open>src/lib/protocol/types.ts\<close>. JavaScript numbers that
  carry sequence numbers, nonces and Unix timestamps are modelled as \<open>int\<close>; NaN and
  fractional values are outside the model. Field names carry a prefix per interface,
  because several interfaces share names (\<open>sequence\<close>, \<open>timestamp\<close>, \<open>balances\<close>).
\<close>

datatype IntentSide = buy | sell

record OrderIntent =
  oi_marketId :: string
  oi_side :: IntentSide
  oi_quantity :: string
  oi_limitPrice :: string
  oi_nonce :: int
  oi_expiresAt :: int
  oi_signature :: string
  oi_userAddress :: string

record ChannelFill =
  cf_orderId :: string
  cf_fillPrice :: string
  cf_fillQuantity :: string
  cf_fee :: string
  cf_timestamp :: int
  cf_batchId :: "string option"
  cf_operatorSignature :: string

record ChannelBalances =
  cb_base :: string
  cb_quote :: string

record StateUpdate =
  su_channelId :: string
  su_sequence :: int
  su_balances :: ChannelBalances
  su_cumulativeFees :: string
  su_timestamp :: int
  su_userSignature :: string
  su_operatorSignature :: string

datatype ChannelStatus = Opening | Active | Closing | Closed | Disputed

record ChannelState =
  ch_id :: string
  ch_userAddress :: string
  ch_operatorAddress :: string
  ch_sequence :: int
  ch_balances :: ChannelBalances
  ch_status :: ChannelStatus
  ch_latestState :: "StateUpdate option"
  ch_nextNonce :: int

record ForceExitProof =
  fp_channelId :: string
  fp_latestState :: StateUpdate
  fp_orderIntents :: "OrderIntent list"
  fp_fills :: "ChannelFill list"
  fp_generatedAt :: int

text \<open>The value of the private \<^verbatim>\<open>auditLog\<close> map: three arrays per channel.\<close>

record ChannelLog =
  log_orders :: "OrderIntent list"
  log_fills :: "ChannelFill list"
  log_states :: "StateUpdate list"

text \<open>The two private maps of \<^verbatim>\<open>StateChannelManager\<close>.\<close>

record Manager =
  channels :: "string \<rightharpoonup> ChannelState"
  auditLog :: "string \<rightharpoonup> ChannelLog"

definition newManager :: Manager where
  "newManager = \<lparr>channels = Map.empty, auditLog = Map.empty\<rparr>"

subsection \<open>Signature verification (signatures.ts)\<close>

text \<open>
  The typed-data value that \<^verbatim>\<open>verifyStateUpdateSignature\<close> builds from a state
  update. Neither signature is part of it.
\<close>

record StateUpdateValue =
  sv_channelId :: string
  sv_sequence :: int
  sv_baseBalance :: string
  sv_quoteBalance :: string
  sv_cumulativeFees :: string
  sv_timestamp :: int

definition stateUpdateValue :: "StateUpdate \<Rightarrow> StateUpdateValue" where
  "stateUpdateValue u =
     \<lparr>sv_channelId = su_channelId u, sv_sequence = su_sequence u,
      sv_baseBalance = cb_base (su_balances u), sv_quoteBalance = cb_quote (su_balances u),
      sv_cumulativeFees = su_cumulativeFees u, sv_timestamp = su_timestamp u\<rparr>"

text \<open>\<^verbatim>\<open>String.prototype.toLowerCase\<close> on the ASCII range (addresses are hex strings).\<close>

definition lowerChar :: "char \<Rightarrow> char" where
  "lowerChar c =
     (let n = (of_char c :: nat) in if 65 \<le> n \<and> n \<le> 90 then char_of (n + 32) else c)"

definition toLowerCase :: "string \<Rightarrow> string" where
  "toLowerCase s = map lowerChar s"

text \<open>
  \<^verbatim>\<open>ethers.verifyTypedData(domain, types, value, signature)\<close> is a library call: it is
  the parameter \<open>recover\<close>, which gives the recovered address, or \<open>None\<close> where
  the library throws (the \<^verbatim>\<open>catch\<close> branch returns false).
\<close>

type_synonym Recover = "StateUpdateValue \<Rightarrow> string \<Rightarrow> string option"

definition verifyStateUpdateSignature :: "Recover \<Rightarrow> StateUpdate \<Rightarrow> string \<Rightarrow> string \<Rightarrow> bool" where
  "verifyStateUpdateSignature recover stateUpdate sig expectedAddress =
     (case recover (stateUpdateValue stateUpdate) sig of
        None \<Rightarrow> False
      | Some recoveredAddress \<Rightarrow> toLowerCase recoveredAddress = toLowerCase expectedAddress)"

subsection \<open>Operations of the manager\<close>

definition initializeChannel ::
  "Manager \<Rightarrow> string \<Rightarrow> string \<Rightarrow> string \<Rightarrow> ChannelBalances \<Rightarrow> ChannelState \<times> Manager" where
  "initializeChannel m channelId userAddress operatorAddress initialBalances =
     (let channel = \<lparr>ch_id = channelId, ch_userAddress = userAddress,
                      ch_operatorAddress = operatorAddress, ch_sequence = 0,
                      ch_balances = initialBalances, ch_status = Opening,
                      ch_latestState = None, ch_nextNonce = 0\<rparr>
      in (channel,
          \<lparr>channels = (channels m)(channelId \<mapsto> channel),
           auditLog = (auditLog m)(channelId \<mapsto>
             \<lparr>log_orders = [], log_fills = [], log_states = []\<rparr>)\<rparr>))"

definition getChannel :: "Manager \<Rightarrow> string \<Rightarrow> ChannelState option" where
  "getChannel m channelId = channels m channelId"

text \<open>
  \<^verbatim>\<open>updateChannelState\<close>: the four early returns of the source in their order, then
  the three assignments to the channel and the push onto \<^verbatim>\<open>log.states\<close>, which the
  source guards by \<^verbatim>\<open>if (log)\<close>.
\<close>

definition updateChannelState :: "Recover \<Rightarrow> Manager \<Rightarrow> string \<Rightarrow> StateUpdate \<Rightarrow> bool \<times> Manager" where
  "updateChannelState recover m channelId newState =
     (case channels m channelId of
        None \<Rightarrow> (False, m)
      | Some channel \<Rightarrow>
          if su_sequence newState \<le> ch_sequence channel then (False, m)
          else if \<not> verifyStateUpdateSignature recover newState
                      (su_userSignature newState) (ch_userAddress channel) then (False, m)
          else if \<not> verifyStateUpdateSignature recover newState
                      (su_operatorSignature newState) (ch_operatorAddress channel) then (False, m)
          else
            (let channel' = channel\<lparr>ch_sequence := su_sequence newState,
                                    ch_balances := su_balances newState,
                                    ch_latestState := Some newState\<rparr>;
                 m1 = m\<lparr>channels := (channels m)(channelId \<mapsto> channel')\<rparr>
             in (True,
                 case auditLog m1 channelId of
                   None \<Rightarrow> m1
                 | Some lg \<Rightarrow>
                     m1\<lparr>auditLog := (auditLog m1)(channelId \<mapsto>
                           lg\<lparr>log_states := log_states lg @ [newState]\<rparr>)\<rparr>)))"

definition recordOrderIntent :: "Manager \<Rightarrow> string \<Rightarrow> OrderIntent \<Rightarrow> Manager" where
  "recordOrderIntent m channelId order =
     (case auditLog m channelId of
        None \<Rightarrow> m
      | Some lg \<Rightarrow>
          m\<lparr>auditLog := (auditLog m)(channelId \<mapsto> lg\<lparr>log_orders := log_orders lg @ [order]\<rparr>)\<rparr>)"

definition recordFill :: "Manager \<Rightarrow> string \<Rightarrow> ChannelFill \<Rightarrow> Manager" where
  "recordFill m channelId fill =
     (case auditLog m channelId of
        None \<Rightarrow> m
      | Some lg \<Rightarrow>
          m\<lparr>auditLog := (auditLog m)(channelId \<mapsto> lg\<lparr>log_fills := log_fills lg @ [fill]\<rparr>)\<rparr>)"

text \<open>\<^verbatim>\<open>getNextNonce\<close> throws on an unknown channel: \<open>None\<close>.\<close>

definition getNextNonce :: "Manager \<Rightarrow> string \<Rightarrow> (int \<times> Manager) option" where
  "getNextNonce m channelId =
     (case channels m channelId of
        None \<Rightarrow> None
      | Some channel \<Rightarrow>
          Some (ch_nextNonce channel,
                m\<lparr>channels := (channels m)(channelId \<mapsto>
                      channel\<lparr>ch_nextNonce := ch_nextNonce channel + 1\<rparr>)\<rparr>))"

text \<open>
  \<^verbatim>\<open>generateForceExitProof\<close>; \<open>now\<close> is the value of \<^verbatim>\<open>Date.now()\<close>.
\<close>

definition generateForceExitProof :: "int \<Rightarrow> Manager \<Rightarrow> string \<Rightarrow> ForceExitProof option" where
  "generateForceExitProof now m channelId =
     (case channels m channelId of
        None \<Rightarrow> None
      | Some channel \<Rightarrow>
         (case ch_latestState channel of
            None \<Rightarrow> None
          | Some latest \<Rightarrow>
             (case auditLog m channelId of
                None \<Rightarrow> None
              | Some lg \<Rightarrow>
                 (let lastStateTimestamp = su_timestamp latest;
                      recentOrders = filter (\<lambda>ord. oi_expiresAt ord > lastStateTimestamp) (log_orders lg);
                      recentFills = filter (\<lambda>f. cf_timestamp f > lastStateTimestamp) (log_fills lg)
                  in Some \<lparr>fp_channelId = channelId, fp_latestState = latest,
                           fp_orderIntents = recentOrders, fp_fills = recentFills,
                           fp_generatedAt = now\<rparr>))))"

definition setStatus :: "ChannelStatus \<Rightarrow> Manager \<Rightarrow> string \<Rightarrow> Manager" where
  "setStatus st m channelId =
     (case channels m channelId of
        None \<Rightarrow> m
      | Some channel \<Rightarrow> m\<lparr>channels := (channels m)(channelId \<mapsto> channel\<lparr>ch_status := st\<rparr>)\<rparr>)"

definition initiateCooperativeClose :: "Manager \<Rightarrow> string \<Rightarrow> Manager" where
  "initiateCooperativeClose = setStatus Closing"

definition initiateForceExit :: "Manager \<Rightarrow> string \<Rightarrow> Manager" where
  "initiateForceExit = setStatus Disputed"

definition finalizeClose :: "Manager \<Rightarrow> string \<Rightarrow> Manager" where
  "finalizeClose = setStatus Closed"

definition clearChannel :: "Manager \<Rightarrow> string \<Rightarrow> Manager" where
  "clearChannel m channelId =
     \<lparr>channels = (channels m)(channelId := None), auditLog = (auditLog m)(channelId := None)\<rparr>"

subsection \<open>Histories of a manager\<close>

text \<open>
  The two maps are private, so every manager a caller can hold is the result of a
  sequence of calls of the public methods on a new manager. \<open>Call\<close> lists the methods
  that change the manager; \<open>perform\<close> runs one call and \<open>run\<close> a sequence of them.
\<close>

datatype Call =
    InitializeChannel string string string ChannelBalances
  | UpdateChannelState string StateUpdate
  | RecordOrderIntent string OrderIntent
  | RecordFill string ChannelFill
  | GetNextNonce string
  | InitiateCooperativeClose string
  | InitiateForceExit string
  | FinalizeClose string
  | ClearChannel string

fun perform :: "Recover \<Rightarrow> Manager \<Rightarrow> Call \<Rightarrow> Manager" where
  "perform recover m (InitializeChannel c u p b) = snd (initializeChannel m c u p b)"
| "perform recover m (UpdateChannelState c s) = snd (updateChannelState recover m c s)"
| "perform recover m (RecordOrderIntent c order) = recordOrderIntent m c order"
| "perform recover m (RecordFill c fill) = recordFill m c fill"
| "perform recover m (GetNextNonce c) = (case getNextNonce m c of None \<Rightarrow> m | Some (n, m') \<Rightarrow> m')"
| "perform recover m (InitiateCooperativeClose c) = initiateCooperativeClose m c"
| "perform recover m (InitiateForceExit c) = initiateForceExit m c"
| "perform recover m (FinalizeClose c) = finalizeClose m c"
| "perform recover m (ClearChannel c) = clearChannel m c"

fun run :: "Recover \<Rightarrow> Manager \<Rightarrow> Call list \<Rightarrow> Manager" where
  "run recover m [] = m"
| "run recover m (c # cs) = run recover (perform recover m c) cs"


text \<open>
  What a history says about one channel, in the words of the specification: whether the
  channel is known (initialised and not cleared since), the latest state update that
  was accepted for it since then (the anchor), and the order intents and fills recorded
  for it since then. \<open>None\<close> is an unknown channel.
\<close>

type_synonym ChannelHistory = "(StateUpdate option \<times> OrderIntent list \<times> ChannelFill list) option"

fun trackCall :: "Recover \<Rightarrow> Manager \<Rightarrow> string \<Rightarrow> ChannelHistory \<Rightarrow> Call \<Rightarrow> ChannelHistory" where
  "trackCall recover m cid h (InitializeChannel c u p b) = (if c = cid then Some (None, [], []) else h)"
| "trackCall recover m cid h (ClearChannel c) = (if c = cid then None else h)"
| "trackCall recover m cid h (UpdateChannelState c s) =
     (if c = cid \<and> fst (updateChannelState recover m c s)
      then map_option (\<lambda>(a, os, fs). (Some s, os, fs)) h else h)"
| "trackCall recover m cid h (RecordOrderIntent c x) =
     (if c = cid then map_option (\<lambda>(a, os, fs). (a, os @ [x], fs)) h else h)"
| "trackCall recover m cid h (RecordFill c x) =
     (if c = cid then map_option (\<lambda>(a, os, fs). (a, os, fs @ [x])) h else h)"
| "trackCall recover m cid h (GetNextNonce c) = h"
| "trackCall recover m cid h (InitiateCooperativeClose c) = h"
| "trackCall recover m cid h (InitiateForceExit c) = h"
| "trackCall recover m cid h (FinalizeClose c) = h"

fun track :: "Recover \<Rightarrow> Manager \<Rightarrow> string \<Rightarrow> ChannelHistory \<Rightarrow> Call list \<Rightarrow> ChannelHistory" where
  "track recover m cid h [] = h"
| "track recover m cid h (c # cs) =
     track recover (perform recover m c) cid (trackCall recover m cid h c) cs"

text \<open>The proof that the specification asks of \<^verbatim>\<open>assemble\<close> for a channel history.\<close>

fun assemble :: "int \<Rightarrow> string \<Rightarrow> ChannelHistory \<Rightarrow> ForceExitProof option" where
  "assemble now cid None = None"
| "assemble now cid (Some (None, os, fs)) = None"
| "assemble now cid (Some (Some u, os, fs)) =
     Some \<lparr>fp_channelId = cid, fp_latestState = u,
           fp_orderIntents = filter (\<lambda>x. su_timestamp u < oi_expiresAt x) os,
           fp_fills = filter (\<lambda>x. su_timestamp u < cf_timestamp x) fs,
           fp_generatedAt = now\<rparr>"

text \<open>Whether \<^verbatim>\<open>initializeChannel\<close> is called for the channel in a history.\<close>

fun initializes :: "string \<Rightarrow> Call \<Rightarrow> bool" where
  "initializes cid (InitializeChannel c u p b) = (c = cid)"
| "initializes cid other = False"

definition neverInitialized :: "string \<Rightarrow> Call list \<Rightarrow> bool" where
  "neverInitialized cid cs = (\<not> list_ex (initializes cid) cs)"

text \<open>A stand-in for the library's signer recovery, used at concrete inputs only: the
  signature of this toy scheme is the signer's address.\<close>

definition demoRecover :: Recover where
  "demoRecover v sig = Some sig"

definition demoBalances :: ChannelBalances where
  "demoBalances = \<lparr>cb_base = ''1'', cb_quote = ''1000''\<rparr>"

definition demoUpdate :: "int \<Rightarrow> int \<Rightarrow> StateUpdate" where
  "demoUpdate n t =
     \<lparr>su_channelId = ''c1'', su_sequence = n, su_balances = demoBalances,
      su_cumulativeFees = ''0'', su_timestamp = t,
      su_userSignature = ''0xAb'', su_operatorSignature = ''0xCd''\<rparr>"

definition demoInit :: Call where
  "demoInit = InitializeChannel ''c1'' ''0xab'' ''0xcd'' demoBalances"

text \<open>The condition under which \<^verbatim>\<open>updateChannelState\<close> passes its three checks.\<close>

definition accepts :: "Recover \<Rightarrow> ChannelState \<Rightarrow> StateUpdate \<Rightarrow> bool" where
  "accepts recover ch u \<longleftrightarrow>
     ch_sequence ch < su_sequence u \<and>
     verifyStateUpdateSignature recover u (su_userSignature u) (ch_userAddress ch) \<and>
     verifyStateUpdateSignature recover u (su_operatorSignature u) (ch_operatorAddress ch)"

definition demoIntent :: OrderIntent where
  "demoIntent = \<lparr>oi_marketId = ''ETH-USDC'', oi_side = buy, oi_quantity = ''1'',
     oi_limitPrice = ''2000'', oi_nonce = 0, oi_expiresAt = 100, oi_signature = ''0xab'',
     oi_userAddress = ''0xab''\<rparr>"

definition demoFill :: ChannelFill where
  "demoFill = \<lparr>cf_orderId = ''o1'', cf_fillPrice = ''2000'', cf_fillQuantity = ''1'',
     cf_fee = ''0'', cf_timestamp = 50, cf_batchId = None, cf_operatorSignature = ''0xcd''\<rparr>"

subsection \<open>Invariants of the manager\<close>

text \<open>The relation between the manager's two maps and the history of one channel.\<close>

definition agrees :: "Manager \<Rightarrow> string \<Rightarrow> ChannelHistory \<Rightarrow> bool" where
  "agrees m cid h =
     (case h of
        None \<Rightarrow> channels m cid = None \<and> auditLog m cid = None
      | Some (a, os, fs) \<Rightarrow>
          (case (channels m cid, auditLog m cid) of
             (Some ch, Some lg) \<Rightarrow> ch_latestState ch = a \<and> log_orders lg = os \<and> log_fills lg = fs
           | _ \<Rightarrow> False))"
lemma agrees_new: "agrees newManager cid None"
  by (simp add: agrees_def newManager_def)

lemma agrees_None: "agrees m cid None \<longleftrightarrow> channels m cid = None \<and> auditLog m cid = None"
  by (simp add: agrees_def)

lemma agrees_Some:
  "agrees m cid (Some (a, os, fs)) \<longleftrightarrow>
     (\<exists>ch lg. channels m cid = Some ch \<and> auditLog m cid = Some lg \<and>
        ch_latestState ch = a \<and> log_orders lg = os \<and> log_fills lg = fs)"
  by (simp add: agrees_def split: option.splits)

lemma update_unknown:
  "channels m c = None \<Longrightarrow> updateChannelState recover m c u = (False, m)"
  by (simp add: updateChannelState_def)

lemma update_rejected:
  "channels m c = Some ch \<Longrightarrow> \<not> accepts recover ch u \<Longrightarrow>
   updateChannelState recover m c u = (False, m)"
  by (auto simp: updateChannelState_def accepts_def)

lemma update_accepted:
  "channels m c = Some ch \<Longrightarrow> accepts recover ch u \<Longrightarrow>
   updateChannelState recover m c u =
     (True, \<lparr>channels = (channels m)(c \<mapsto> ch\<lparr>ch_sequence := su_sequence u,
                ch_balances := su_balances u, ch_latestState := Some u\<rparr>),
             auditLog = (case auditLog m c of None \<Rightarrow> auditLog m
                | Some lg \<Rightarrow> (auditLog m)(c \<mapsto> lg\<lparr>log_states := log_states lg @ [u]\<rparr>))\<rparr>)"
  by (simp add: updateChannelState_def accepts_def Let_def split: option.splits)

lemma agrees_update:
  assumes "agrees m cid h"
  shows "agrees (snd (updateChannelState recover m c s)) cid (trackCall recover m cid h (UpdateChannelState c s))"
proof (cases "channels m c")
  case None
  then show ?thesis using assms by (simp add: update_unknown)
next
  case (Some ch)
  show ?thesis
  proof (cases "accepts recover ch s")
    case False
    then show ?thesis using assms Some by (simp add: update_rejected)
  next
    case True
    note upd = update_accepted [OF Some True]
    show ?thesis
    proof (cases "c = cid")
      case False
      then show ?thesis using assms
        by (cases h) (auto simp: upd agrees_None agrees_Some split: option.splits)
    next
      case same: True
      show ?thesis
      proof (cases h)
        case None
        then show ?thesis using assms Some same by (simp add: agrees_None)
      next
        case (Some t)
        obtain a os fs where t: "t = (a, os, fs)" by (cases t)
        show ?thesis using assms \<open>channels m c = Some ch\<close> unfolding Some t
          by (auto simp: upd same [symmetric] agrees_Some)
      qed
    qed
  qed
qed


lemma agrees_perform:
  assumes "agrees m cid h"
  shows "agrees (perform recover m c) cid (trackCall recover m cid h c)"
proof (cases c)
  case (UpdateChannelState c' s)
  then show ?thesis using agrees_update [OF assms] by simp
next
  case (InitializeChannel c' u p b)
  then show ?thesis using assms
    by (cases h) (auto simp: agrees_None agrees_Some initializeChannel_def Let_def)
next
  case (RecordOrderIntent c' x)
  then show ?thesis using assms
    by (cases h) (auto simp: agrees_None agrees_Some recordOrderIntent_def split: option.splits)
next
  case (RecordFill c' x)
  then show ?thesis using assms
    by (cases h) (auto simp: agrees_None agrees_Some recordFill_def split: option.splits)
next
  case (GetNextNonce c')
  then show ?thesis using assms
    by (cases h) (auto simp: agrees_None agrees_Some getNextNonce_def split: option.splits)
next
  case (InitiateCooperativeClose c')
  then show ?thesis using assms
    by (cases h) (auto simp: agrees_None agrees_Some initiateCooperativeClose_def setStatus_def split: option.splits)
next
  case (InitiateForceExit c')
  then show ?thesis using assms
    by (cases h) (auto simp: agrees_None agrees_Some initiateForceExit_def setStatus_def split: option.splits)
next
  case (FinalizeClose c')
  then show ?thesis using assms
    by (cases h) (auto simp: agrees_None agrees_Some finalizeClose_def setStatus_def split: option.splits)
next
  case (ClearChannel c')
  then show ?thesis using assms
    by (cases h) (auto simp: agrees_None agrees_Some clearChannel_def)
qed

lemma agrees_run:
  "agrees m cid h \<Longrightarrow> agrees (run recover m cs) cid (track recover m cid h cs)"
  by (induction cs arbitrary: m h) (simp_all add: agrees_perform)

lemma agrees_history:
  "agrees (run recover newManager cs) cid (track recover newManager cid None cs)"
  by (rule agrees_run [OF agrees_new])

lemma generate_of_agrees:
  "agrees m cid h \<Longrightarrow> generateForceExitProof now m cid = assemble now cid h"
  by (cases "(now, cid, h)" rule: assemble.cases)
     (auto simp: agrees_None agrees_Some generateForceExitProof_def Let_def)

lemma track_never_initialized:
  "neverInitialized cid cs \<Longrightarrow> track recover m cid None cs = None"
  by (induction cs arbitrary: m)
     (auto simp: neverInitialized_def elim: initializes.elims split: if_splits)

lemma unknown_channel_no_log:
  "neverInitialized cid cs \<Longrightarrow> auditLog (run recover newManager cs) cid = None"
  using agrees_history [of recover cs cid] track_never_initialized [of cid cs recover newManager]
  by (simp add: agrees_None)

lemma logs_follow_channels:
  "dom (channels (run recover newManager cs)) = dom (auditLog (run recover newManager cs))"
proof (rule set_eqI)
  fix cid
  show "cid \<in> dom (channels (run recover newManager cs)) \<longleftrightarrow>
        cid \<in> dom (auditLog (run recover newManager cs))"
    using agrees_history [of recover cs cid]
    by (cases "track recover newManager cid None cs") (auto simp: agrees_None agrees_Some)
qed

lemma run_append: "run recover m (cs @ ds) = run recover (run recover m cs) ds"
  by (induction cs arbitrary: m) simp_all


subsection \<open>Claims about the channel manager\<close>

text \<open>
  C2. On a manager reached by any history of calls, \<^verbatim>\<open>updateChannelState\<close> returns
  false and leaves the manager as it was when the channel is unknown, when the update's
  sequence is less than or equal to the channel's (whatever the signatures are), and
  when either signature fails verification; whenever it returns false the manager is
  unchanged. When it returns true, both signatures verified and the sequence was
  strictly greater, the channel's sequence, balances and latestState are replaced by
  the update's, the update is appended to the channel's \<^verbatim>\<open>log.states\<close>, and nothing
  else changes.
\<close>

theorem updateChannelState_all_or_nothing:
  assumes "m = run recover newManager cs"
  shows "(channels m cid = None \<longrightarrow> updateChannelState recover m cid u = (False, m)) \<and>
    (\<forall>ch. channels m cid = Some ch \<and> su_sequence u \<le> ch_sequence ch \<longrightarrow>
        updateChannelState recover m cid u = (False, m)) \<and>
    (\<forall>ch. channels m cid = Some ch \<and>
        (\<not> verifyStateUpdateSignature recover u (su_userSignature u) (ch_userAddress ch) \<or>
         \<not> verifyStateUpdateSignature recover u (su_operatorSignature u) (ch_operatorAddress ch)) \<longrightarrow>
        updateChannelState recover m cid u = (False, m)) \<and>
    (\<not> fst (updateChannelState recover m cid u) \<longrightarrow> snd (updateChannelState recover m cid u) = m) \<and>
    (fst (updateChannelState recover m cid u) \<longrightarrow>
       (\<exists>ch lg. channels m cid = Some ch \<and> auditLog m cid = Some lg \<and>
          ch_sequence ch < su_sequence u \<and>
          verifyStateUpdateSignature recover u (su_userSignature u) (ch_userAddress ch) \<and>
          verifyStateUpdateSignature recover u (su_operatorSignature u) (ch_operatorAddress ch) \<and>
          snd (updateChannelState recover m cid u) =
            \<lparr>channels = (channels m)(cid \<mapsto> ch\<lparr>ch_sequence := su_sequence u,
                 ch_balances := su_balances u, ch_latestState := Some u\<rparr>),
             auditLog = (auditLog m)(cid \<mapsto> lg\<lparr>log_states := log_states lg @ [u]\<rparr>)\<rparr>))"
proof -
  have unknown: "channels m cid = None \<longrightarrow> updateChannelState recover m cid u = (False, m)"
    by (simp add: update_unknown)
  have stale: "\<forall>ch. channels m cid = Some ch \<and> su_sequence u \<le> ch_sequence ch \<longrightarrow>
        updateChannelState recover m cid u = (False, m)"
    by (auto intro!: update_rejected simp: accepts_def)
  have badsig: "\<forall>ch. channels m cid = Some ch \<and>
        (\<not> verifyStateUpdateSignature recover u (su_userSignature u) (ch_userAddress ch) \<or>
         \<not> verifyStateUpdateSignature recover u (su_operatorSignature u) (ch_operatorAddress ch)) \<longrightarrow>
        updateChannelState recover m cid u = (False, m)"
    by (auto intro!: update_rejected simp: accepts_def)
  have rejected: "\<not> fst (updateChannelState recover m cid u) \<longrightarrow>
      snd (updateChannelState recover m cid u) = m"
  proof (cases "channels m cid")
    case None
    then show ?thesis by (simp add: update_unknown)
  next
    case (Some ch)
    then show ?thesis
      by (cases "accepts recover ch u") (simp_all add: update_rejected update_accepted)
  qed
  have accepted: "fst (updateChannelState recover m cid u) \<longrightarrow>
       (\<exists>ch lg. channels m cid = Some ch \<and> auditLog m cid = Some lg \<and>
          ch_sequence ch < su_sequence u \<and>
          verifyStateUpdateSignature recover u (su_userSignature u) (ch_userAddress ch) \<and>
          verifyStateUpdateSignature recover u (su_operatorSignature u) (ch_operatorAddress ch) \<and>
          snd (updateChannelState recover m cid u) =
            \<lparr>channels = (channels m)(cid \<mapsto> ch\<lparr>ch_sequence := su_sequence u,
                 ch_balances := su_balances u, ch_latestState := Some u\<rparr>),
             auditLog = (auditLog m)(cid \<mapsto> lg\<lparr>log_states := log_states lg @ [u]\<rparr>)\<rparr>)"
  proof (cases "channels m cid")
    case None
    then show ?thesis by (simp add: update_unknown)
  next
    case (Some ch)
    have "cid \<in> dom (auditLog m)"
      using Some logs_follow_channels [of recover cs] assms by auto
    then obtain lg where lg: "auditLog m cid = Some lg" by auto
    show ?thesis
    proof (cases "accepts recover ch u")
      case False
      then show ?thesis using Some by (simp add: update_rejected)
    next
      case True
      then show ?thesis using Some lg
        by (simp add: update_accepted accepts_def)
    qed
  qed
  from unknown stale badsig rejected accepted show ?thesis by blast
qed


lemma fst_initializeChannel:
  "fst (initializeChannel m c u p b) =
     \<lparr>ch_id = c, ch_userAddress = u, ch_operatorAddress = p, ch_sequence = 0,
      ch_balances = b, ch_status = Opening, ch_latestState = None, ch_nextNonce = 0\<rparr>"
  by (simp add: initializeChannel_def Let_def)

lemma snd_initializeChannel:
  "snd (initializeChannel m c u p b) =
     \<lparr>channels = (channels m)(c \<mapsto> fst (initializeChannel m c u p b)),
      auditLog = (auditLog m)(c \<mapsto> \<lparr>log_orders = [], log_fills = [], log_states = []\<rparr>)\<rparr>"
  by (simp add: initializeChannel_def Let_def)

lemma demo_channel:
  "channels (run demoRecover newManager [demoInit]) ''c1'' =
     Some \<lparr>ch_id = ''c1'', ch_userAddress = ''0xab'', ch_operatorAddress = ''0xcd'',
           ch_sequence = 0, ch_balances = demoBalances, ch_status = Opening,
           ch_latestState = None, ch_nextNonce = 0\<rparr>"
  by (simp add: demoInit_def snd_initializeChannel fst_initializeChannel)

lemma demo_lower:
  "toLowerCase ''0xAb'' = toLowerCase ''0xab''" "toLowerCase ''0xCd'' = toLowerCase ''0xcd''"
  by code_simp+

lemma demo_verify:
  "verifyStateUpdateSignature demoRecover (demoUpdate n t) ''0xAb'' ''0xab''"
  "verifyStateUpdateSignature demoRecover (demoUpdate n t) ''0xCd'' ''0xcd''"
  by (simp_all add: verifyStateUpdateSignature_def demoRecover_def demo_lower)

theorem updateChannelState_all_or_nothing_witness:
  "su_sequence (demoUpdate 0 5) \<le> 0 \<and>
   updateChannelState demoRecover (run demoRecover newManager [demoInit]) ''c1'' (demoUpdate 0 5) =
     (False, run demoRecover newManager [demoInit]) \<and>
   updateChannelState demoRecover (run demoRecover newManager [demoInit]) ''c2'' (demoUpdate 1 5) =
     (False, run demoRecover newManager [demoInit]) \<and>
   fst (updateChannelState demoRecover (run demoRecover newManager [demoInit]) ''c1'' (demoUpdate 1 5)) \<and>
   log_states (the (auditLog (snd (updateChannelState demoRecover
      (run demoRecover newManager [demoInit]) ''c1'' (demoUpdate 1 5))) ''c1'')) = [demoUpdate 1 5]"
proof -
  let ?m = "run demoRecover newManager [demoInit]"
  have seq: "su_sequence (demoUpdate 0 5) \<le> 0" by (simp add: demoUpdate_def)
  have none: "channels ?m ''c2'' = None"
    by (simp add: demoInit_def snd_initializeChannel newManager_def)
  have stale: "updateChannelState demoRecover ?m ''c1'' (demoUpdate 0 5) = (False, ?m)"
    using updateChannelState_all_or_nothing [of ?m demoRecover "[demoInit]" "''c1''" "demoUpdate 0 5"]
      demo_channel seq by simp
  have unknown: "updateChannelState demoRecover ?m ''c2'' (demoUpdate 1 5) = (False, ?m)"
    using updateChannelState_all_or_nothing [of ?m demoRecover "[demoInit]" "''c2''" "demoUpdate 1 5"]
      none by simp
  have acc: "fst (updateChannelState demoRecover ?m ''c1'' (demoUpdate 1 5))"
    using demo_channel demo_verify [of 1 5]
    by (simp add: update_accepted accepts_def demoUpdate_def)
  have lg: "log_states (the (auditLog (snd (updateChannelState demoRecover ?m ''c1''
      (demoUpdate 1 5))) ''c1'')) = [demoUpdate 1 5]"
    using updateChannelState_all_or_nothing [of ?m demoRecover "[demoInit]" "''c1''" "demoUpdate 1 5"]
      acc by (auto simp: demoInit_def snd_initializeChannel newManager_def)
  from seq stale unknown acc lg show ?thesis by blast
qed

text \<open>
  C7. A channel whose sequence is strictly below the sequence of an update carrying
  valid user and operator signatures accepts the update, whatever the gap: the channel
  takes the update's sequence, balances and latestState. The scenario of the claim, a
  channel at sequence 0 and an update at sequence 3, is the witness.
\<close>

theorem sequence_gap_accepted:
  assumes "channels m cid = Some ch"
    and "ch_sequence ch < su_sequence u"
    and "verifyStateUpdateSignature recover u (su_userSignature u) (ch_userAddress ch)"
    and "verifyStateUpdateSignature recover u (su_operatorSignature u) (ch_operatorAddress ch)"
  shows "fst (updateChannelState recover m cid u) \<and>
         channels (snd (updateChannelState recover m cid u)) cid =
           Some (ch\<lparr>ch_sequence := su_sequence u, ch_balances := su_balances u,
                    ch_latestState := Some u\<rparr>)"
  using assms by (simp add: update_accepted accepts_def)

theorem sequence_gap_accepted_witness:
  "ch_sequence (fst (initializeChannel newManager ''c1'' ''0xab'' ''0xcd'' demoBalances)) = 0 \<and>
   su_sequence (demoUpdate 3 5) = 3 \<and>
   fst (updateChannelState demoRecover
         (snd (initializeChannel newManager ''c1'' ''0xab'' ''0xcd'' demoBalances)) ''c1'' (demoUpdate 3 5)) \<and>
   map_option ch_sequence (channels (snd (updateChannelState demoRecover
         (snd (initializeChannel newManager ''c1'' ''0xab'' ''0xcd'' demoBalances)) ''c1'' (demoUpdate 3 5))) ''c1'')
     = Some 3"
proof -
  let ?ch = "fst (initializeChannel newManager ''c1'' ''0xab'' ''0xcd'' demoBalances)"
  let ?m = "snd (initializeChannel newManager ''c1'' ''0xab'' ''0xcd'' demoBalances)"
  have c: "channels ?m ''c1'' = Some ?ch" by (simp add: snd_initializeChannel)
  have s0: "ch_sequence ?ch = 0" by (simp add: fst_initializeChannel)
  have s3: "su_sequence (demoUpdate 3 5) = 3" by (simp add: demoUpdate_def)
  have lt: "ch_sequence ?ch < su_sequence (demoUpdate 3 5)" using s0 s3 by simp
  have v1: "verifyStateUpdateSignature demoRecover (demoUpdate 3 5)
              (su_userSignature (demoUpdate 3 5)) (ch_userAddress ?ch)"
    using demo_verify(1) [of 3 5] by (simp add: demoUpdate_def fst_initializeChannel)
  have v2: "verifyStateUpdateSignature demoRecover (demoUpdate 3 5)
              (su_operatorSignature (demoUpdate 3 5)) (ch_operatorAddress ?ch)"
    using demo_verify(2) [of 3 5] by (simp add: demoUpdate_def fst_initializeChannel)
  show ?thesis
    using sequence_gap_accepted [OF c lt v1 v2] s0 s3 by simp
qed

text \<open>
  C6. After any history of calls on a new manager, \<^verbatim>\<open>generateForceExitProof\<close>
  returns what the specification's \<open>assemble\<close> gives for the channel's history: no
  proof exactly when the channel is unknown or no state update has been accepted for it
  since it was initialised; otherwise the channel id, the latest accepted update, the
  recorded order intents with \<^verbatim>\<open>expiresAt\<close> above that update's timestamp, the
  recorded fills with \<^verbatim>\<open>timestamp\<close> above it, and the generation time.
\<close>

theorem generateForceExitProof_history:
  "generateForceExitProof now (run recover newManager cs) cid =
     assemble now cid (track recover newManager cid None cs) \<and>
   (generateForceExitProof now (run recover newManager cs) cid = None \<longleftrightarrow>
      (case track recover newManager cid None cs of
         None \<Rightarrow> True | Some (anchor, os, fs) \<Rightarrow> anchor = None))"
proof -
  have eq: "generateForceExitProof now (run recover newManager cs) cid =
     assemble now cid (track recover newManager cid None cs)"
    by (rule generate_of_agrees [OF agrees_history])
  have "assemble now cid h = None \<longleftrightarrow> (case h of None \<Rightarrow> True | Some (anchor, os, fs) \<Rightarrow> anchor = None)"
    for h
    by (cases "(now, cid, h)" rule: assemble.cases) simp_all
  with eq show ?thesis by simp
qed

text \<open>
  C10. For a channel id that no call of the history initialised,
  \<^verbatim>\<open>recordOrderIntent\<close> and \<^verbatim>\<open>recordFill\<close> return the manager unchanged (the
  model's functions are total: no error), so a history with such a call continues as
  the history without it, and every later force-exit proof is the same with or without
  the call.
\<close>

theorem record_unknown_channel_noop:
  assumes "neverInitialized cid cs"
  shows "recordOrderIntent (run recover newManager cs) cid x = run recover newManager cs \<and>
         recordFill (run recover newManager cs) cid f = run recover newManager cs \<and>
         run recover newManager (cs @ RecordOrderIntent cid x # ds) = run recover newManager (cs @ ds) \<and>
         run recover newManager (cs @ RecordFill cid f # ds) = run recover newManager (cs @ ds) \<and>
         generateForceExitProof now (run recover newManager (cs @ RecordOrderIntent cid x # ds)) c =
           generateForceExitProof now (run recover newManager (cs @ ds)) c \<and>
         generateForceExitProof now (run recover newManager (cs @ RecordFill cid f # ds)) c =
           generateForceExitProof now (run recover newManager (cs @ ds)) c"
proof -
  have nolog: "auditLog (run recover newManager cs) cid = None"
    by (rule unknown_channel_no_log [OF assms])
  have a: "recordOrderIntent (run recover newManager cs) cid x = run recover newManager cs"
    by (simp add: recordOrderIntent_def nolog)
  have b: "recordFill (run recover newManager cs) cid f = run recover newManager cs"
    by (simp add: recordFill_def nolog)
  have c: "run recover newManager (cs @ RecordOrderIntent cid x # ds) = run recover newManager (cs @ ds)"
    by (simp add: run_append a)
  have d: "run recover newManager (cs @ RecordFill cid f # ds) = run recover newManager (cs @ ds)"
    by (simp add: run_append b)
  show ?thesis by (simp only: a b c d)
qed

theorem record_unknown_channel_noop_witness:
  "neverInitialized ''c2'' [demoInit] \<and>
   recordOrderIntent (run demoRecover newManager [demoInit]) ''c2'' demoIntent =
     run demoRecover newManager [demoInit] \<and>
   recordFill (run demoRecover newManager [demoInit]) ''c2'' demoFill =
     run demoRecover newManager [demoInit]"
proof -
  have n: "neverInitialized ''c2'' [demoInit]"
    by (simp add: neverInitialized_def demoInit_def)
  show ?thesis
    using record_unknown_channel_noop [OF n, of demoRecover demoIntent demoFill] n by simp
qed

section \<open>Prediction market matching engine (matcher.ts: src/lib/protocol/channel.ts, lines 253-771)\<close>

subsection \<open>Data\<close>

text \<open>
  Modelled from the spec: the type declarations of \<^verbatim>\<open>lib/prediction/types.ts\<close>
  (\<^verbatim>\<open>Order\<close>, \<^verbatim>\<open>OrderRequest\<close>, \<^verbatim>\<open>Fill\<close>, \<^verbatim>\<open>Orderbook\<close>,
  \<^verbatim>\<open>UserBalance\<close>, \<^verbatim>\<open>PredictionMarketState\<close>, \<^verbatim>\<open>OrderResult\<close>) are not among
  the sources; the fields are the ones the matcher reads and writes, and the
  specification's data model names them.

  JavaScript numbers that carry prices, quantities and balances are real numbers: the
  values of the finite doubles. NaN and the infinities are outside the model. The
  definitions that follow compute exactly; the subsection on the arithmetic of the
  source gives the functions that compute with the rounding of the doubles as a
  parameter. Timestamps and the state's sequence are \<open>int\<close>.
\<close>

datatype Outcome = YES | NO
datatype OrderSide = BUY | SELL
datatype OrderType = LIMIT | MARKET
datatype OrderStatus = OPEN | PARTIAL | FILLED | CANCELLED

record Order =
  o_id :: string
  o_userId :: string
  o_outcome :: Outcome
  o_side :: OrderSide
  o_type :: OrderType
  o_price :: real
  o_quantity :: real
  o_remainingQuantity :: real
  o_timestamp :: int
  o_status :: OrderStatus

text \<open>\<open>rq_price\<close> is the optional field \<^verbatim>\<open>price?: number\<close>: \<open>None\<close> is undefined.\<close>

record OrderRequest =
  rq_userId :: string
  rq_outcome :: Outcome
  rq_side :: OrderSide
  rq_type :: OrderType
  rq_price :: "real option"
  rq_quantity :: real

record Fill =
  f_id :: string
  f_makerOrderId :: string
  f_takerOrderId :: string
  f_price :: real
  f_quantity :: real
  f_timestamp :: int
  f_outcome :: Outcome

record UserBalance =
  usdc :: real
  yes :: real
  no :: real

text \<open>
  Order objects are shared and mutated in place: the arrays of the order book, the
  sorted copy that \<^verbatim>\<open>getMatchableOrders\<close> returns and the result of
  \<^verbatim>\<open>processOrder\<close> hold references to the same objects, and \<^verbatim>\<open>matchOrder\<close>
  writes \<^verbatim>\<open>remainingQuantity\<close> and \<^verbatim>\<open>status\<close> through them. The model keeps
  the objects in a store: a reference is an index into the list of all order objects
  allocated so far, and the arrays of the book hold references.
\<close>

type_synonym Ref = nat
type_synonym Store = "Order list"

record Orderbook =
  yesBids :: "Ref list"
  yesAsks :: "Ref list"
  noBids :: "Ref list"
  noAsks :: "Ref list"

record PredictionMarketState =
  st_marketId :: string
  st_question :: string
  st_orderbook :: Orderbook
  st_balances :: "string \<rightharpoonup> UserBalance"
  st_fills :: "Fill list"
  st_sequence :: int
  st_timestamp :: int
  st_lastYesPrice :: "real option"
  st_lastNoPrice :: "real option"

text \<open>The messages of \<^verbatim>\<open>validateRequest\<close>, as values.\<close>

datatype ValidationError =
    UserNotFound
  | QuantityNotPositive
  | PriceRequired
  | PriceOutOfRange
  | InsufficientUSDC real real
  | InsufficientTokens Outcome real real

record OrderResult =
  r_success :: bool
  r_error :: "ValidationError option"
  r_order :: "Ref option"
  r_fills :: "Fill list"
  r_newState :: PredictionMarketState

text \<open>
  \<^verbatim>\<open>generateId()\<close> and \<^verbatim>\<open>Date.now()\<close> read the clock and the random generator.
  One call of \<^verbatim>\<open>processOrder\<close> gets them as two functions of the call's number:
  \<open>newId 0\<close> and \<open>clock 0\<close> are the id and the timestamp of the order, \<open>newId (k + 1)\<close>
  and \<open>clock (k + 1)\<close> those of the fill number \<open>k\<close>, and the timestamp of the new
  state is \<open>clock (n + 1)\<close> after \<open>n\<close> fills.
\<close>

record Env =
  newId :: "nat \<Rightarrow> string"
  clock :: "nat \<Rightarrow> int"

definition createInitialState :: "int \<Rightarrow> string \<Rightarrow> string \<Rightarrow> PredictionMarketState" where
  "createInitialState now marketId question =
     \<lparr>st_marketId = marketId, st_question = question,
      st_orderbook = \<lparr>yesBids = [], yesAsks = [], noBids = [], noAsks = []\<rparr>,
      st_balances = Map.empty, st_fills = [], st_sequence = 0, st_timestamp = now,
      st_lastYesPrice = None, st_lastNoPrice = None\<rparr>"

definition initUserBalance :: "int \<Rightarrow> PredictionMarketState \<Rightarrow> string \<Rightarrow> real \<Rightarrow> PredictionMarketState" where
  "initUserBalance now state userId usdcAmount =
     state\<lparr>st_balances := (st_balances state)(userId \<mapsto> \<lparr>usdc = usdcAmount, yes = 0, no = 0\<rparr>),
           st_sequence := st_sequence state + 1,
           st_timestamp := now\<rparr>"

subsection \<open>Validation\<close>

text \<open>\<^verbatim>\<open>request.price || 1\<close>: an undefined or zero price gives 1.\<close>

definition priceOr1 :: "real option \<Rightarrow> real" where
  "priceOr1 p = (case p of None \<Rightarrow> 1 | Some x \<Rightarrow> if x = 0 then 1 else x)"

definition tokensOf :: "Outcome \<Rightarrow> UserBalance \<Rightarrow> real" where
  "tokensOf outcome b = (case outcome of YES \<Rightarrow> yes b | NO \<Rightarrow> no b)"

definition validateRequest :: "PredictionMarketState \<Rightarrow> OrderRequest \<Rightarrow> ValidationError option" where
  "validateRequest state request =
     (case st_balances state (rq_userId request) of
        None \<Rightarrow> Some UserNotFound
      | Some userBalance \<Rightarrow>
          if rq_quantity request \<le> 0 then Some QuantityNotPositive
          else if rq_type request = LIMIT \<and> rq_price request = None then Some PriceRequired
          else if rq_type request = LIMIT \<and>
                  (case rq_price request of None \<Rightarrow> False | Some p \<Rightarrow> p \<le> 0 \<or> p \<ge> 1)
               then Some PriceOutOfRange
          else if rq_side request = BUY then
            (let requiredUSDC = priceOr1 (rq_price request) * rq_quantity request
             in if usdc userBalance < requiredUSDC
                then Some (InsufficientUSDC requiredUSDC (usdc userBalance)) else None)
          else
            (let tokens = tokensOf (rq_outcome request) userBalance
             in if tokens < rq_quantity request
                then Some (InsufficientTokens (rq_outcome request) (rq_quantity request) tokens)
                else None))"

subsection \<open>Sorting and the book\<close>

text \<open>
  \<^verbatim>\<open>Array.prototype.sort\<close> with a comparator is stable: the model is the stable
  insertion sort by the relation \<open>le a b\<close>, which stands for \<^verbatim>\<open>compare(a, b) <= 0\<close>.
\<close>

fun insertBy :: "('a \<Rightarrow> 'a \<Rightarrow> bool) \<Rightarrow> 'a \<Rightarrow> 'a list \<Rightarrow> 'a list" where
  "insertBy le x [] = [x]"
| "insertBy le x (y # ys) = (if le x y then x # y # ys else y # insertBy le x ys)"

definition sortBy :: "('a \<Rightarrow> 'a \<Rightarrow> bool) \<Rightarrow> 'a list \<Rightarrow> 'a list" where
  "sortBy le xs = foldr (insertBy le) xs []"

text \<open>
  The two comparators of the source:
  \<^verbatim>\<open>a.price - b.price || a.timestamp - b.timestamp\<close> for asks and
  \<^verbatim>\<open>b.price - a.price || a.timestamp - b.timestamp\<close> for bids.
\<close>

definition askBefore :: "Order \<Rightarrow> Order \<Rightarrow> bool" where
  "askBefore a b = (o_price a < o_price b \<or> (o_price a = o_price b \<and> o_timestamp a \<le> o_timestamp b))"

definition bidBefore :: "Order \<Rightarrow> Order \<Rightarrow> bool" where
  "bidBefore a b = (o_price b < o_price a \<or> (o_price a = o_price b \<and> o_timestamp a \<le> o_timestamp b))"

definition sortAsks :: "Store \<Rightarrow> Ref list \<Rightarrow> Ref list" where
  "sortAsks h rs = sortBy (\<lambda>a b. askBefore (h ! a) (h ! b)) rs"

definition sortBids :: "Store \<Rightarrow> Ref list \<Rightarrow> Ref list" where
  "sortBids h rs = sortBy (\<lambda>a b. bidBefore (h ! a) (h ! b)) rs"

definition getMatchableOrders :: "Store \<Rightarrow> Orderbook \<Rightarrow> Order \<Rightarrow> Ref list" where
  "getMatchableOrders h orderbook order =
     (if o_side order = BUY then
        (if o_outcome order = YES then sortAsks h (yesAsks orderbook)
         else sortAsks h (noAsks orderbook))
      else
        (if o_outcome order = YES then sortBids h (yesBids orderbook)
         else sortBids h (noBids orderbook)))"

definition canMatch :: "Order \<Rightarrow> Order \<Rightarrow> bool" where
  "canMatch takerOrder makerOrder =
     (if o_side takerOrder = BUY then o_price takerOrder \<ge> o_price makerOrder
      else o_price takerOrder \<le> o_price makerOrder)"

definition addToOrderbook :: "Store \<Rightarrow> Orderbook \<Rightarrow> Ref \<Rightarrow> Orderbook" where
  "addToOrderbook h orderbook r =
     (if o_outcome (h ! r) = YES then
        (if o_side (h ! r) = BUY
         then orderbook\<lparr>yesBids := sortBids h (yesBids orderbook @ [r])\<rparr>
         else orderbook\<lparr>yesAsks := sortAsks h (yesAsks orderbook @ [r])\<rparr>)
      else
        (if o_side (h ! r) = BUY
         then orderbook\<lparr>noBids := sortBids h (noBids orderbook @ [r])\<rparr>
         else orderbook\<lparr>noAsks := sortAsks h (noAsks orderbook @ [r])\<rparr>))"

text \<open>\<^verbatim>\<open>removeFromOrderbook\<close> filters one array by the order's id.\<close>

definition removeFromOrderbook :: "Store \<Rightarrow> Orderbook \<Rightarrow> Order \<Rightarrow> Orderbook" where
  "removeFromOrderbook h orderbook order =
     (if o_outcome order = YES then
        (if o_side order = BUY
         then orderbook\<lparr>yesBids := filter (\<lambda>r. o_id (h ! r) \<noteq> o_id order) (yesBids orderbook)\<rparr>
         else orderbook\<lparr>yesAsks := filter (\<lambda>r. o_id (h ! r) \<noteq> o_id order) (yesAsks orderbook)\<rparr>)
      else
        (if o_side order = BUY
         then orderbook\<lparr>noBids := filter (\<lambda>r. o_id (h ! r) \<noteq> o_id order) (noBids orderbook)\<rparr>
         else orderbook\<lparr>noAsks := filter (\<lambda>r. o_id (h ! r) \<noteq> o_id order) (noAsks orderbook)\<rparr>))"

subsection \<open>Balances\<close>

definition addTokens :: "Outcome \<Rightarrow> real \<Rightarrow> UserBalance \<Rightarrow> UserBalance" where
  "addTokens outcome q b = (case outcome of YES \<Rightarrow> b\<lparr>yes := yes b + q\<rparr> | NO \<Rightarrow> b\<lparr>no := no b + q\<rparr>)"

text \<open>
  \<^verbatim>\<open>updateBalancesForFill\<close> copies the two balance records first, changes the copies,
  and stores the taker's copy and then the maker's. Where a party has no balance record
  the source spreads \<^verbatim>\<open>undefined\<close> and its arithmetic gives NaN balances; the model
  has no NaN and gives \<open>None\<close> there.
\<close>

definition updateBalancesForFill ::
  "(string \<rightharpoonup> UserBalance) \<Rightarrow> Order \<Rightarrow> Order \<Rightarrow> Fill \<Rightarrow> (string \<rightharpoonup> UserBalance) option" where
  "updateBalancesForFill balances takerOrder makerOrder fill =
     (case balances (o_userId takerOrder) of
        None \<Rightarrow> None
      | Some takerBalance \<Rightarrow>
         (case balances (o_userId makerOrder) of
            None \<Rightarrow> None
          | Some makerBalance \<Rightarrow>
             (let usdcAmount = f_price fill * f_quantity fill;
                  outcome = f_outcome fill;
                  takerBalance' =
                    (if o_side takerOrder = BUY
                     then addTokens outcome (f_quantity fill)
                            (takerBalance\<lparr>usdc := usdc takerBalance - usdcAmount\<rparr>)
                     else addTokens outcome (- f_quantity fill)
                            (takerBalance\<lparr>usdc := usdc takerBalance + usdcAmount\<rparr>));
                  makerBalance' =
                    (if o_side takerOrder = BUY
                     then addTokens outcome (- f_quantity fill)
                            (makerBalance\<lparr>usdc := usdc makerBalance + usdcAmount\<rparr>)
                     else addTokens outcome (f_quantity fill)
                            (makerBalance\<lparr>usdc := usdc makerBalance - usdcAmount\<rparr>))
              in Some (balances(o_userId takerOrder \<mapsto> takerBalance',
                                o_userId makerOrder \<mapsto> makerBalance')))))"

subsection \<open>The matching loop\<close>

text \<open>The local variables of \<^verbatim>\<open>matchOrder\<close> that its loop changes, and the store.\<close>

record MatchState =
  ms_fills :: "Fill list"
  ms_remainingQty :: real
  ms_balances :: "string \<rightharpoonup> UserBalance"
  ms_orderbook :: Orderbook
  ms_store :: Store

text \<open>
  The body of the loop after its two \<^verbatim>\<open>break\<close> tests, for the maker object at
  reference \<open>r\<close>: the fill, the balances, the two quantities, and the maker's status
  and removal when nothing of it remains.
\<close>

definition fillStep :: "Env \<Rightarrow> Order \<Rightarrow> Ref \<Rightarrow> MatchState \<Rightarrow> MatchState option" where
  "fillStep env order r st =
     (let makerOrder = ms_store st ! r;
          fillQty = min (ms_remainingQty st) (o_remainingQuantity makerOrder);
          fillPrice = o_price makerOrder;
          k = length (ms_fills st);
          fill = \<lparr>f_id = newId env (k + 1), f_makerOrderId = o_id makerOrder,
                  f_takerOrderId = o_id order, f_price = fillPrice, f_quantity = fillQty,
                  f_timestamp = clock env (k + 1), f_outcome = o_outcome order\<rparr>
      in case updateBalancesForFill (ms_balances st) order makerOrder fill of
           None \<Rightarrow> None
         | Some balances' \<Rightarrow>
            (let maker1 = makerOrder\<lparr>o_remainingQuantity := o_remainingQuantity makerOrder - fillQty\<rparr>;
                 st1 = st\<lparr>ms_fills := ms_fills st @ [fill],
                          ms_remainingQty := ms_remainingQty st - fillQty,
                          ms_balances := balances'\<rparr>
             in if o_remainingQuantity maker1 = 0
                then (let maker2 = maker1\<lparr>o_status := FILLED\<rparr>;
                          store2 = (ms_store st)[r := maker2]
                      in Some (st1\<lparr>ms_store := store2,
                                  ms_orderbook := removeFromOrderbook store2 (ms_orderbook st) maker2\<rparr>))
                else Some (st1\<lparr>ms_store := (ms_store st)[r := maker1]\<rparr>)))"

fun matchLoop :: "Env \<Rightarrow> Order \<Rightarrow> Ref list \<Rightarrow> MatchState \<Rightarrow> MatchState option" where
  "matchLoop env order [] st = Some st"
| "matchLoop env order (r # rs) st =
     (if ms_remainingQty st \<le> 0 then Some st
      else if \<not> canMatch order (ms_store st ! r) then Some st
      else (case fillStep env order r st of
              None \<Rightarrow> None
            | Some st' \<Rightarrow> matchLoop env order rs st'))"

record MatchResult =
  m_fills :: "Fill list"
  m_updatedOrder :: Order
  m_updatedOrderbook :: Orderbook
  m_updatedBalances :: "string \<rightharpoonup> UserBalance"
  m_store :: Store

definition matchOrder :: "Env \<Rightarrow> Store \<Rightarrow> PredictionMarketState \<Rightarrow> Order \<Rightarrow> MatchResult option" where
  "matchOrder env h state order =
     (let st0 = \<lparr>ms_fills = [], ms_remainingQty = o_quantity order,
                 ms_balances = st_balances state, ms_orderbook = st_orderbook state,
                 ms_store = h\<rparr>;
          matchableOrders = getMatchableOrders h (st_orderbook state) order
      in case matchLoop env order matchableOrders st0 of
           None \<Rightarrow> None
         | Some st \<Rightarrow>
             Some \<lparr>m_fills = ms_fills st,
                   m_updatedOrder = order\<lparr>o_remainingQuantity := ms_remainingQty st\<rparr>,
                   m_updatedOrderbook = ms_orderbook st,
                   m_updatedBalances = ms_balances st,
                   m_store = ms_store st\<rparr>)"

subsection \<open>processOrder and cancelOrder\<close>

text \<open>One turn of the loop over the fills that tracks the last prices.\<close>

definition lastPrices :: "real option \<times> real option \<Rightarrow> Fill \<Rightarrow> real option \<times> real option" where
  "lastPrices prev fill =
     (if f_outcome fill = YES then (Some (f_price fill), Some (1 - f_price fill))
      else (Some (1 - f_price fill), Some (f_price fill)))"

text \<open>
  The order that \<^verbatim>\<open>processOrder\<close> creates from a request. A limit request without a
  price does not get here: \<^verbatim>\<open>validateRequest\<close> has refused it.
\<close>

definition createOrder :: "Env \<Rightarrow> OrderRequest \<Rightarrow> Order" where
  "createOrder env request =
     \<lparr>o_id = newId env 0, o_userId = rq_userId request, o_outcome = rq_outcome request,
      o_side = rq_side request, o_type = rq_type request,
      o_price = (if rq_type request = MARKET
                 then (if rq_side request = BUY then 1 else 0)
                 else (case rq_price request of Some p \<Rightarrow> p | None \<Rightarrow> 0)),
      o_quantity = rq_quantity request, o_remainingQuantity = rq_quantity request,
      o_timestamp = clock env 0, o_status = OPEN\<rparr>"

text \<open>
  \<^verbatim>\<open>processOrder\<close>. The object \<^verbatim>\<open>updatedOrder\<close> is allocated at the end of the
  store; the book, when the order rests, and the result hold its reference, and the
  status is written to it after it has been added to the book, as in the source.
\<close>

definition processOrder ::
  "Env \<Rightarrow> Store \<Rightarrow> PredictionMarketState \<Rightarrow> OrderRequest \<Rightarrow> (OrderResult \<times> Store) option" where
  "processOrder env h currentState request =
     (case validateRequest currentState request of
        Some validationError \<Rightarrow>
          Some (\<lparr>r_success = False, r_error = Some validationError, r_order = None,
                 r_fills = [], r_newState = currentState\<rparr>, h)
      | None \<Rightarrow>
         (case matchOrder env h currentState (createOrder env request) of
            None \<Rightarrow> None
          | Some m \<Rightarrow>
             (let updatedOrder = m_updatedOrder m;
                  r = length (m_store m);
                  store1 = m_store m @ [updatedOrder];
                  newOrderbook =
                    (if o_remainingQuantity updatedOrder > 0 \<and> o_type updatedOrder = LIMIT
                     then addToOrderbook store1 (m_updatedOrderbook m) r
                     else m_updatedOrderbook m);
                  store2 =
                    (if o_remainingQuantity updatedOrder = 0
                     then store1[r := updatedOrder\<lparr>o_status := FILLED\<rparr>]
                     else if o_remainingQuantity updatedOrder < o_quantity updatedOrder
                     then store1[r := updatedOrder\<lparr>o_status := PARTIAL\<rparr>]
                     else store1);
                  lastPair = foldl lastPrices
                           (st_lastYesPrice currentState, st_lastNoPrice currentState) (m_fills m);
                  newState = currentState\<lparr>
                    st_orderbook := newOrderbook,
                    st_balances := m_updatedBalances m,
                    st_fills := st_fills currentState @ m_fills m,
                    st_sequence := st_sequence currentState + 1,
                    st_timestamp := clock env (length (m_fills m) + 1),
                    st_lastYesPrice := fst lastPair,
                    st_lastNoPrice := snd lastPair\<rparr>
              in Some (\<lparr>r_success = True, r_error = None, r_order = Some r,
                        r_fills = m_fills m, r_newState = newState\<rparr>, store2))))"

fun findIndex :: "('a \<Rightarrow> bool) \<Rightarrow> 'a list \<Rightarrow> nat option" where
  "findIndex P [] = None"
| "findIndex P (x # xs) = (if P x then Some 0 else map_option Suc (findIndex P xs))"

text \<open>The closure \<^verbatim>\<open>removeFromList\<close> of \<^verbatim>\<open>cancelOrder\<close>, with the flag it sets.\<close>

definition removeFromList :: "Store \<Rightarrow> string \<Rightarrow> string \<Rightarrow> Ref list \<Rightarrow> Ref list \<times> bool" where
  "removeFromList h orderId userId orders =
     (case findIndex (\<lambda>r. o_id (h ! r) = orderId \<and> o_userId (h ! r) = userId) orders of
        None \<Rightarrow> (orders, False)
      | Some idx \<Rightarrow> (take idx orders @ drop (idx + 1) orders, True))"

definition cancelOrder ::
  "int \<Rightarrow> Store \<Rightarrow> PredictionMarketState \<Rightarrow> string \<Rightarrow> string \<Rightarrow> PredictionMarketState" where
  "cancelOrder now h state orderId userId =
     (let ob = st_orderbook state;
          yb = removeFromList h orderId userId (yesBids ob);
          ya = removeFromList h orderId userId (yesAsks ob);
          nb = removeFromList h orderId userId (noBids ob);
          na = removeFromList h orderId userId (noAsks ob);
          found = (snd yb \<or> snd ya \<or> snd nb \<or> snd na)
      in if \<not> found then state
         else state\<lparr>st_orderbook := \<lparr>yesBids = fst yb, yesAsks = fst ya,
                                       noBids = fst nb, noAsks = fst na\<rparr>,
                    st_sequence := st_sequence state + 1,
                    st_timestamp := now\<rparr>)"

subsection \<open>The specification of matching\<close>

text \<open>
  The words of the specification (4.1, matching loop), to compare the source with:
  the side the taker is matched against, the priority among its orders, the test of an
  acceptable price, and the fills of the loop over the makers in priority order, each
  as maker id, price and quantity.
\<close>

definition oppositeSide :: "Orderbook \<Rightarrow> Order \<Rightarrow> Ref list" where
  "oppositeSide orderbook taker =
     (case (o_side taker, o_outcome taker) of
        (BUY, YES) \<Rightarrow> yesAsks orderbook
      | (BUY, NO) \<Rightarrow> noAsks orderbook
      | (SELL, YES) \<Rightarrow> yesBids orderbook
      | (SELL, NO) \<Rightarrow> noBids orderbook)"




definition fillTriple :: "Fill \<Rightarrow> string \<times> real \<times> real" where
  "fillTriple f = (f_makerOrderId f, f_price f, f_quantity f)"

definition sideOk :: "Store \<Rightarrow> Outcome \<Rightarrow> OrderSide \<Rightarrow> Ref list \<Rightarrow> bool" where
  "sideOk h oc sd rs =
     (list_all (\<lambda>r. r < length h \<and> o_outcome (h ! r) = oc \<and> o_side (h ! r) = sd) rs \<and>
      distinct (map (\<lambda>r. o_id (h ! r)) rs))"

definition wfBook :: "Store \<Rightarrow> Orderbook \<Rightarrow> bool" where
  "wfBook h orderbook =
     (sideOk h YES BUY (yesBids orderbook) \<and> sideOk h YES SELL (yesAsks orderbook) \<and>
      sideOk h NO BUY (noBids orderbook) \<and> sideOk h NO SELL (noAsks orderbook))"

definition allRefs :: "Orderbook \<Rightarrow> Ref list" where
  "allRefs orderbook = yesBids orderbook @ yesAsks orderbook @ noBids orderbook @ noAsks orderbook"

definition hasBalance :: "(string \<rightharpoonup> UserBalance) \<Rightarrow> Store \<Rightarrow> Ref list \<Rightarrow> bool" where
  "hasBalance balances h rs = list_all (\<lambda>r. balances (o_userId (h ! r)) \<noteq> None) rs"




text \<open>The fill that one turn of the loop creates, and the maker object after it.\<close>

definition theFill :: "Env \<Rightarrow> Order \<Rightarrow> Ref \<Rightarrow> MatchState \<Rightarrow> Fill" where
  "theFill env order r st =
     \<lparr>f_id = newId env (length (ms_fills st) + 1), f_makerOrderId = o_id (ms_store st ! r),
      f_takerOrderId = o_id order, f_price = o_price (ms_store st ! r),
      f_quantity = min (ms_remainingQty st) (o_remainingQuantity (ms_store st ! r)),
      f_timestamp = clock env (length (ms_fills st) + 1), f_outcome = o_outcome order\<rparr>"

definition makerAfter :: "Ref \<Rightarrow> MatchState \<Rightarrow> Order" where
  "makerAfter r st =
     (let m = ms_store st ! r; q = min (ms_remainingQty st) (o_remainingQuantity m)
      in if o_remainingQuantity m - q = 0
         then m\<lparr>o_remainingQuantity := 0, o_status := FILLED\<rparr>
         else m\<lparr>o_remainingQuantity := o_remainingQuantity m - q\<rparr>)"

subsection \<open>Concrete inputs\<close>

text \<open>Resting orders of other users, with a price and a remaining quantity that are not negative.\<close>

definition foreignMakers :: "string \<Rightarrow> (string \<rightharpoonup> UserBalance) \<Rightarrow> Store \<Rightarrow> Ref list \<Rightarrow> bool" where
  "foreignMakers u balances h rs =
     list_all (\<lambda>r. o_userId (h ! r) \<noteq> u \<and> balances (o_userId (h ! r)) \<noteq> None \<and>
                    0 \<le> o_remainingQuantity (h ! r) \<and> 0 \<le> o_price (h ! r)) rs"

text \<open>Concrete inputs: an environment, seeded balances (as the demo page seeds them), requests.\<close>

definition mkEnv :: "string \<Rightarrow> int \<Rightarrow> Env" where
  "mkEnv tag t = \<lparr>newId = (\<lambda>k. tag @ replicate k (CHR ''+'')), clock = (\<lambda>k. t + int k)\<rparr>"

definition seeded :: "(string \<times> UserBalance) list \<Rightarrow> PredictionMarketState" where
  "seeded bs = (createInitialState 0 ''m1'' ''q'')\<lparr>st_balances := map_of bs\<rparr>"

definition limitReq :: "string \<Rightarrow> OrderSide \<Rightarrow> Outcome \<Rightarrow> real \<Rightarrow> real \<Rightarrow> OrderRequest" where
  "limitReq u sd oc p q = \<lparr>rq_userId = u, rq_outcome = oc, rq_side = sd, rq_type = LIMIT,
     rq_price = Some p, rq_quantity = q\<rparr>"

definition thenOrder ::
  "Env \<Rightarrow> OrderRequest \<Rightarrow> (OrderResult \<times> Store) option \<Rightarrow> (OrderResult \<times> Store) option" where
  "thenOrder env rq x =
     (case x of None \<Rightarrow> None | Some (res, h) \<Rightarrow> processOrder env h (r_newState res) rq)"

definition demoAsk :: "string \<Rightarrow> string \<Rightarrow> real \<Rightarrow> real \<Rightarrow> int \<Rightarrow> Order" where
  "demoAsk i u p q t = \<lparr>o_id = i, o_userId = u, o_outcome = YES, o_side = SELL, o_type = LIMIT,
     o_price = p, o_quantity = q, o_remainingQuantity = q, o_timestamp = t, o_status = OPEN\<rparr>"

definition demoStore :: Store where
  "demoStore = [demoAsk ''b1'' ''bob'' (1/2) 5 1, demoAsk ''c1'' ''carol'' (2/5) 5 2]"

definition demoState :: PredictionMarketState where
  "demoState = (seeded [(''alice'', \<lparr>usdc = 1000, yes = 0, no = 0\<rparr>),
                        (''bob'', \<lparr>usdc = 0, yes = 5, no = 0\<rparr>),
                        (''carol'', \<lparr>usdc = 0, yes = 5, no = 0\<rparr>)])
     \<lparr>st_orderbook := \<lparr>yesBids = [], yesAsks = [0, 1], noBids = [], noAsks = []\<rparr>\<rparr>"

definition demoTaker :: Order where
  "demoTaker = createOrder (mkEnv ''t'' 10) (limitReq ''alice'' BUY YES (3/5) 8)"

definition balanceNonNegative :: "UserBalance \<Rightarrow> bool" where
  "balanceNonNegative b \<longleftrightarrow> 0 \<le> usdc b \<and> 0 \<le> yes b \<and> 0 \<le> no b"

text \<open>What a caller sees of a result: success, error, the fills and one user's balance.\<close>

definition outcomeFor ::
  "string \<Rightarrow> (OrderResult \<times> Store) option \<Rightarrow>
     (bool \<times> ValidationError option \<times> (string \<times> real \<times> real) list \<times> UserBalance option) option" where
  "outcomeFor u x =
     map_option (\<lambda>(res, h). (r_success res, r_error res, map fillTriple (r_fills res),
                              st_balances (r_newState res) u)) x"

text \<open>A maker with two resting bids, each covered alone by the same cash.\<close>

definition overdrawStart :: PredictionMarketState where
  "overdrawStart = seeded [(''alice'', \<lparr>usdc = 0, yes = 40, no = 0\<rparr>),
                           (''bob'', \<lparr>usdc = 10, yes = 0, no = 0\<rparr>)]"

definition overdrawRun :: "(OrderResult \<times> Store) option" where
  "overdrawRun =
     thenOrder (mkEnv ''s'' 30) (limitReq ''alice'' SELL YES (1/2) 40)
       (thenOrder (mkEnv ''b2'' 20) (limitReq ''bob'' BUY YES (1/2) 20)
          (processOrder (mkEnv ''b1'' 10) [] overdrawStart (limitReq ''bob'' BUY YES (1/2) 20)))"

text \<open>A user who sells into the user's own resting bid.\<close>

definition selfTradeStart :: PredictionMarketState where
  "selfTradeStart = seeded [(''alice'', \<lparr>usdc = 1000, yes = 100, no = 100\<rparr>)]"

definition selfTradeRun :: "(OrderResult \<times> Store) option" where
  "selfTradeRun =
     thenOrder (mkEnv ''b'' 10) (limitReq ''alice'' SELL YES (2/5) 10)
       (processOrder (mkEnv ''a'' 1) [] selfTradeStart (limitReq ''alice'' BUY YES (2/5) 10))"

text \<open>A market buy that carries a price, against a resting ask at 0.9.\<close>

definition pricedMarketState :: PredictionMarketState where
  "pricedMarketState =
     (seeded [(''alice'', \<lparr>usdc = 6, yes = 0, no = 0\<rparr>), (''bob'', \<lparr>usdc = 0, yes = 10, no = 0\<rparr>)])
       \<lparr>st_orderbook := \<lparr>yesBids = [], yesAsks = [0], noBids = [], noAsks = []\<rparr>\<rparr>"

definition pricedMarketRequest :: OrderRequest where
  "pricedMarketRequest = \<lparr>rq_userId = ''alice'', rq_outcome = YES, rq_side = BUY,
     rq_type = MARKET, rq_price = Some (1/2), rq_quantity = 10\<rparr>"

subsection \<open>The arithmetic of the source\<close>

text \<open>
  The numbers of the source are IEEE 754 doubles. Each of \<^verbatim>\<open>*\<close>, \<^verbatim>\<open>+\<close> and \<^verbatim>\<open>-\<close>
  returns the exact result rounded to a double; comparisons and \<^verbatim>\<open>Math.min\<close> are
  exact. The definitions of this subsection are the functions of the matcher that
  compute, with the rounding \<open>rnd\<close> as a parameter: \<open>rnd x\<close> is the double that the
  real number \<open>x\<close> rounds to, so the product of the source is \<open>rnd (x * y)\<close>. Values
  are the finite doubles, as real numbers; NaN and the infinities stay outside. With
  the identity for \<open>rnd\<close> these are the definitions above, which compute exactly.
\<close>

type_synonym Rounding = "real \<Rightarrow> real"

definition validateRequest_fl ::
  "Rounding \<Rightarrow> PredictionMarketState \<Rightarrow> OrderRequest \<Rightarrow> ValidationError option" where
  "validateRequest_fl rnd state request =
     (case st_balances state (rq_userId request) of
        None \<Rightarrow> Some UserNotFound
      | Some userBalance \<Rightarrow>
          if rq_quantity request \<le> 0 then Some QuantityNotPositive
          else if rq_type request = LIMIT \<and> rq_price request = None then Some PriceRequired
          else if rq_type request = LIMIT \<and>
                  (case rq_price request of None \<Rightarrow> False | Some p \<Rightarrow> p \<le> 0 \<or> p \<ge> 1)
               then Some PriceOutOfRange
          else if rq_side request = BUY then
            (let requiredUSDC = rnd (priceOr1 (rq_price request) * rq_quantity request)
             in if usdc userBalance < requiredUSDC
                then Some (InsufficientUSDC requiredUSDC (usdc userBalance)) else None)
          else
            (let tokens = tokensOf (rq_outcome request) userBalance
             in if tokens < rq_quantity request
                then Some (InsufficientTokens (rq_outcome request) (rq_quantity request) tokens)
                else None))"

definition addTokens_fl :: "Rounding \<Rightarrow> Outcome \<Rightarrow> real \<Rightarrow> UserBalance \<Rightarrow> UserBalance" where
  "addTokens_fl rnd outcome q b =
     (case outcome of YES \<Rightarrow> b\<lparr>yes := rnd (yes b + q)\<rparr> | NO \<Rightarrow> b\<lparr>no := rnd (no b + q)\<rparr>)"

definition updateBalancesForFill_fl ::
  "Rounding \<Rightarrow> (string \<rightharpoonup> UserBalance) \<Rightarrow> Order \<Rightarrow> Order \<Rightarrow> Fill \<Rightarrow>
     (string \<rightharpoonup> UserBalance) option" where
  "updateBalancesForFill_fl rnd balances takerOrder makerOrder fill =
     (case balances (o_userId takerOrder) of
        None \<Rightarrow> None
      | Some takerBalance \<Rightarrow>
         (case balances (o_userId makerOrder) of
            None \<Rightarrow> None
          | Some makerBalance \<Rightarrow>
             (let usdcAmount = rnd (f_price fill * f_quantity fill);
                  outcome = f_outcome fill;
                  takerBalance' =
                    (if o_side takerOrder = BUY
                     then addTokens_fl rnd outcome (f_quantity fill)
                            (takerBalance\<lparr>usdc := rnd (usdc takerBalance - usdcAmount)\<rparr>)
                     else addTokens_fl rnd outcome (- f_quantity fill)
                            (takerBalance\<lparr>usdc := rnd (usdc takerBalance + usdcAmount)\<rparr>));
                  makerBalance' =
                    (if o_side takerOrder = BUY
                     then addTokens_fl rnd outcome (- f_quantity fill)
                            (makerBalance\<lparr>usdc := rnd (usdc makerBalance + usdcAmount)\<rparr>)
                     else addTokens_fl rnd outcome (f_quantity fill)
                            (makerBalance\<lparr>usdc := rnd (usdc makerBalance - usdcAmount)\<rparr>))
              in Some (balances(o_userId takerOrder \<mapsto> takerBalance',
                                o_userId makerOrder \<mapsto> makerBalance')))))"

definition fillStep_fl :: "Rounding \<Rightarrow> Env \<Rightarrow> Order \<Rightarrow> Ref \<Rightarrow> MatchState \<Rightarrow> MatchState option" where
  "fillStep_fl rnd env order r st =
     (let makerOrder = ms_store st ! r;
          fillQty = min (ms_remainingQty st) (o_remainingQuantity makerOrder);
          fillPrice = o_price makerOrder;
          k = length (ms_fills st);
          fill = \<lparr>f_id = newId env (k + 1), f_makerOrderId = o_id makerOrder,
                  f_takerOrderId = o_id order, f_price = fillPrice, f_quantity = fillQty,
                  f_timestamp = clock env (k + 1), f_outcome = o_outcome order\<rparr>
      in case updateBalancesForFill_fl rnd (ms_balances st) order makerOrder fill of
           None \<Rightarrow> None
         | Some balances' \<Rightarrow>
            (let maker1 = makerOrder\<lparr>o_remainingQuantity :=
                                         rnd (o_remainingQuantity makerOrder - fillQty)\<rparr>;
                 st1 = st\<lparr>ms_fills := ms_fills st @ [fill],
                          ms_remainingQty := rnd (ms_remainingQty st - fillQty),
                          ms_balances := balances'\<rparr>
             in if o_remainingQuantity maker1 = 0
                then (let maker2 = maker1\<lparr>o_status := FILLED\<rparr>;
                          store2 = (ms_store st)[r := maker2]
                      in Some (st1\<lparr>ms_store := store2,
                                  ms_orderbook := removeFromOrderbook store2 (ms_orderbook st) maker2\<rparr>))
                else Some (st1\<lparr>ms_store := (ms_store st)[r := maker1]\<rparr>)))"

fun matchLoop_fl :: "Rounding \<Rightarrow> Env \<Rightarrow> Order \<Rightarrow> Ref list \<Rightarrow> MatchState \<Rightarrow> MatchState option" where
  "matchLoop_fl rnd env order [] st = Some st"
| "matchLoop_fl rnd env order (r # rs) st =
     (if ms_remainingQty st \<le> 0 then Some st
      else if \<not> canMatch order (ms_store st ! r) then Some st
      else (case fillStep_fl rnd env order r st of
              None \<Rightarrow> None
            | Some st' \<Rightarrow> matchLoop_fl rnd env order rs st'))"

definition matchOrder_fl ::
  "Rounding \<Rightarrow> Env \<Rightarrow> Store \<Rightarrow> PredictionMarketState \<Rightarrow> Order \<Rightarrow> MatchResult option" where
  "matchOrder_fl rnd env h state order =
     (let st0 = \<lparr>ms_fills = [], ms_remainingQty = o_quantity order,
                 ms_balances = st_balances state, ms_orderbook = st_orderbook state,
                 ms_store = h\<rparr>;
          matchableOrders = getMatchableOrders h (st_orderbook state) order
      in case matchLoop_fl rnd env order matchableOrders st0 of
           None \<Rightarrow> None
         | Some st \<Rightarrow>
             Some \<lparr>m_fills = ms_fills st,
                   m_updatedOrder = order\<lparr>o_remainingQuantity := ms_remainingQty st\<rparr>,
                   m_updatedOrderbook = ms_orderbook st,
                   m_updatedBalances = ms_balances st,
                   m_store = ms_store st\<rparr>)"

definition lastPrices_fl ::
  "Rounding \<Rightarrow> real option \<times> real option \<Rightarrow> Fill \<Rightarrow> real option \<times> real option" where
  "lastPrices_fl rnd prev fill =
     (if f_outcome fill = YES then (Some (f_price fill), Some (rnd (1 - f_price fill)))
      else (Some (rnd (1 - f_price fill)), Some (f_price fill)))"

definition processOrder_fl ::
  "Rounding \<Rightarrow> Env \<Rightarrow> Store \<Rightarrow> PredictionMarketState \<Rightarrow> OrderRequest \<Rightarrow>
     (OrderResult \<times> Store) option" where
  "processOrder_fl rnd env h currentState request =
     (case validateRequest_fl rnd currentState request of
        Some validationError \<Rightarrow>
          Some (\<lparr>r_success = False, r_error = Some validationError, r_order = None,
                 r_fills = [], r_newState = currentState\<rparr>, h)
      | None \<Rightarrow>
         (case matchOrder_fl rnd env h currentState (createOrder env request) of
            None \<Rightarrow> None
          | Some m \<Rightarrow>
             (let updatedOrder = m_updatedOrder m;
                  r = length (m_store m);
                  store1 = m_store m @ [updatedOrder];
                  newOrderbook =
                    (if o_remainingQuantity updatedOrder > 0 \<and> o_type updatedOrder = LIMIT
                     then addToOrderbook store1 (m_updatedOrderbook m) r
                     else m_updatedOrderbook m);
                  store2 =
                    (if o_remainingQuantity updatedOrder = 0
                     then store1[r := updatedOrder\<lparr>o_status := FILLED\<rparr>]
                     else if o_remainingQuantity updatedOrder < o_quantity updatedOrder
                     then store1[r := updatedOrder\<lparr>o_status := PARTIAL\<rparr>]
                     else store1);
                  lastPair = foldl (lastPrices_fl rnd)
                           (st_lastYesPrice currentState, st_lastNoPrice currentState) (m_fills m);
                  newState = currentState\<lparr>
                    st_orderbook := newOrderbook,
                    st_balances := m_updatedBalances m,
                    st_fills := st_fills currentState @ m_fills m,
                    st_sequence := st_sequence currentState + 1,
                    st_timestamp := clock env (length (m_fills m) + 1),
                    st_lastYesPrice := fst lastPair,
                    st_lastNoPrice := snd lastPair\<rparr>
              in Some (\<lparr>r_success = True, r_error = None, r_order = Some r,
                        r_fills = m_fills m, r_newState = newState\<rparr>, store2))))"

text \<open>The maker object after one turn of the loop, with the rounded subtraction.\<close>

definition makerAfter_fl :: "Rounding \<Rightarrow> Ref \<Rightarrow> MatchState \<Rightarrow> Order" where
  "makerAfter_fl rnd r st =
     (let m = ms_store st ! r; q = min (ms_remainingQty st) (o_remainingQuantity m)
      in if rnd (o_remainingQuantity m - q) = 0
         then m\<lparr>o_remainingQuantity := rnd (o_remainingQuantity m - q), o_status := FILLED\<rparr>
         else m\<lparr>o_remainingQuantity := rnd (o_remainingQuantity m - q)\<rparr>)"

text \<open>
  What the loop keeps true of the requesting user (the taker): the token balances are
  not negative and, for a sell, neither is the cash, and the tokens of the outcome
  cover the quantity that remains.
\<close>

definition takerSafe :: "Order \<Rightarrow> MatchState \<Rightarrow> bool" where
  "takerSafe t st \<longleftrightarrow>
     (case ms_balances st (o_userId t) of
        None \<Rightarrow> False
      | Some b \<Rightarrow>
          0 \<le> yes b \<and> 0 \<le> no b \<and>
          (o_side t = SELL \<longrightarrow> 0 \<le> usdc b \<and> ms_remainingQty st \<le> tokensOf (o_outcome t) b))"

text \<open>A user is the maker of a fill: the user owns a resting order that a fill names.\<close>

definition makerOf :: "Store \<Rightarrow> Ref list \<Rightarrow> Fill list \<Rightarrow> string \<Rightarrow> bool" where
  "makerOf h rs fs u =
     list_ex (\<lambda>f. list_ex (\<lambda>r. o_id (h ! r) = f_makerOrderId f \<and> o_userId (h ! r) = u) rs) fs"

text \<open>A rounding to the multiples of a quarter, halves upwards, for concrete inputs.\<close>

definition quarters :: Rounding where
  "quarters x = of_int \<lfloor>4 * x + 1 / 2\<rfloor> / 4"

text \<open>
  Concrete inputs in quarters: alice holds 3/4 in cash and one YES token; bob and carol
  each rest an ask of 1/2 YES at 3/4, bob rests a bid of 1/2 YES at 1/4, and dave has
  a balance and no order.
\<close>

definition roundingStore :: Store where
  "roundingStore =
     [demoAsk ''b1'' ''bob'' (3/4) (1/2) 1, demoAsk ''c1'' ''carol'' (3/4) (1/2) 2,
      (demoAsk ''b2'' ''bob'' (1/4) (1/2) 3)\<lparr>o_side := BUY\<rparr>]"

definition roundingState :: PredictionMarketState where
  "roundingState =
     (seeded [(''alice'', \<lparr>usdc = 3/4, yes = 1, no = 0\<rparr>),
              (''bob'', \<lparr>usdc = 1, yes = 1/2, no = 0\<rparr>),
              (''carol'', \<lparr>usdc = 0, yes = 1/2, no = 0\<rparr>),
              (''dave'', \<lparr>usdc = 5, yes = 0, no = 0\<rparr>)])
       \<lparr>st_orderbook := \<lparr>yesBids = [2], yesAsks = [0, 1], noBids = [], noAsks = []\<rparr>\<rparr>"

subsection \<open>The specification of cancellation\<close>

text \<open>
  The specification's cancellation (4.1): whether an order with the id and the owner
  rests on some side, and the book without it.
\<close>

definition isOrderOf :: "Store \<Rightarrow> string \<Rightarrow> string \<Rightarrow> Ref \<Rightarrow> bool" where
  "isOrderOf h orderId userId r \<longleftrightarrow> o_id (h ! r) = orderId \<and> o_userId (h ! r) = userId"

definition resting :: "Store \<Rightarrow> Orderbook \<Rightarrow> string \<Rightarrow> string \<Rightarrow> bool" where
  "resting h orderbook orderId userId = list_ex (isOrderOf h orderId userId) (allRefs orderbook)"

definition withoutOrder :: "Store \<Rightarrow> string \<Rightarrow> string \<Rightarrow> Orderbook \<Rightarrow> Orderbook" where
  "withoutOrder h orderId userId orderbook =
     \<lparr>yesBids = filter (\<lambda>r. \<not> isOrderOf h orderId userId r) (yesBids orderbook),
      yesAsks = filter (\<lambda>r. \<not> isOrderOf h orderId userId r) (yesAsks orderbook),
      noBids = filter (\<lambda>r. \<not> isOrderOf h orderId userId r) (noBids orderbook),
      noAsks = filter (\<lambda>r. \<not> isOrderOf h orderId userId r) (noAsks orderbook)\<rparr>"

text \<open>The ids that \<^verbatim>\<open>generateId\<close> gives are unique: no array holds an id twice.\<close>

definition uniqueIds :: "Store \<Rightarrow> Orderbook \<Rightarrow> bool" where
  "uniqueIds h orderbook \<longleftrightarrow>
     distinct (map (\<lambda>r. o_id (h ! r)) (yesBids orderbook)) \<and>
     distinct (map (\<lambda>r. o_id (h ! r)) (yesAsks orderbook)) \<and>
     distinct (map (\<lambda>r. o_id (h ! r)) (noBids orderbook)) \<and>
     distinct (map (\<lambda>r. o_id (h ! r)) (noAsks orderbook))"

subsection \<open>The states of the matcher\<close>

text \<open>
  The ids of the orders in the book, and the states in which matching runs: a book
  whose arrays hold orders of their own outcome and side with distinct ids, each owned
  by a user with a balance record.
\<close>

definition bookIds :: "Store \<Rightarrow> Orderbook \<Rightarrow> string set" where
  "bookIds h orderbook = (\<lambda>r. o_id (h ! r)) ` set (allRefs orderbook)"

definition wfState :: "Store \<Rightarrow> PredictionMarketState \<Rightarrow> bool" where
  "wfState h s \<longleftrightarrow>
     wfBook h (st_orderbook s) \<and> hasBalance (st_balances s) h (allRefs (st_orderbook s))"

subsection \<open>Sorting, the loop and its trace\<close>

lemma mset_insertBy: "mset (insertBy le x xs) = add_mset x (mset xs)"
  by (induction xs) simp_all

lemma mset_sortBy: "mset (sortBy le xs) = mset xs"
  by (induction xs) (simp_all add: sortBy_def mset_insertBy)










lemma mset_sortAsks: "mset (sortAsks h rs) = mset rs"
  by (simp add: sortAsks_def mset_sortBy)

lemma mset_sortBids: "mset (sortBids h rs) = mset rs"
  by (simp add: sortBids_def mset_sortBy)





lemma fillStep_Some:
  assumes "fillStep env order r st = Some st'"
  shows "ms_fills st' = ms_fills st @ [theFill env order r st]"
    and "ms_remainingQty st' =
           ms_remainingQty st - min (ms_remainingQty st) (o_remainingQuantity (ms_store st ! r))"
    and "updateBalancesForFill (ms_balances st) order (ms_store st ! r) (theFill env order r st)
           = Some (ms_balances st')"
    and "ms_store st' = (ms_store st)[r := makerAfter r st]"
    and "ms_orderbook st' =
           (if o_remainingQuantity (makerAfter r st) = 0
            then removeFromOrderbook (ms_store st') (ms_orderbook st) (makerAfter r st)
            else ms_orderbook st)"
  using assms
  by (auto simp: fillStep_def theFill_def makerAfter_def Let_def split: option.splits if_splits)


lemma updateBalances_keys:
  "updateBalancesForFill b t m f = Some b' \<Longrightarrow> (b' u = None \<longleftrightarrow> b u = None)"
  by (auto simp: updateBalancesForFill_def Let_def split: option.splits if_splits)

lemma makerAfter_fields:
  "o_userId (makerAfter r st) = o_userId (ms_store st ! r)"
  "o_id (makerAfter r st) = o_id (ms_store st ! r)"
  "o_outcome (makerAfter r st) = o_outcome (ms_store st ! r)"
  "o_side (makerAfter r st) = o_side (ms_store st ! r)"
  "o_price (makerAfter r st) = o_price (ms_store st ! r)"
  "o_remainingQuantity (makerAfter r st) =
     o_remainingQuantity (ms_store st ! r) - min (ms_remainingQty st) (o_remainingQuantity (ms_store st ! r))"
  by (simp_all add: makerAfter_def Let_def)


lemma store_update_userId:
  "o_userId ((ms_store st)[r := makerAfter r st] ! r') = o_userId (ms_store st ! r')"
proof (cases "r' = r")
  case True
  then show ?thesis
    by (cases "r < length (ms_store st)") (simp_all add: makerAfter_fields list_update_beyond)
next
  case False
  then show ?thesis by simp
qed









lemma getMatchableOrders_perm:
  "mset (getMatchableOrders h b t) = mset (oppositeSide b t)"
  by (cases "o_side t"; cases "o_outcome t")
     (simp_all add: getMatchableOrders_def oppositeSide_def mset_sortAsks mset_sortBids)



lemma sideOk_member:
  "sideOk h oc sd rs \<Longrightarrow> r \<in> set rs \<Longrightarrow> r < length h \<and> o_outcome (h ! r) = oc \<and> o_side (h ! r) = sd"
  by (simp add: sideOk_def list_all_iff)




subsection \<open>Price-time priority (claim C3)\<close>


lemmas matcher_eval =
  processOrder_def validateRequest_def matchOrder_def createOrder_def getMatchableOrders_def
  sortAsks_def sortBids_def sortBy_def addToOrderbook_def fillStep_def canMatch_def
  updateBalancesForFill_def addTokens_def removeFromOrderbook_def lastPrices_def Let_def
  tokensOf_def bidBefore_def askBefore_def priceOr1_def
  mkEnv_def seeded_def createInitialState_def limitReq_def thenOrder_def
  demoAsk_def demoStore_def demoState_def demoTaker_def outcomeFor_def fillTriple_def


subsection \<open>Conservation (claim C1)\<close>

text \<open>Between two different users a fill moves cash and tokens and creates none.\<close>

lemma fill_conserves_between_two_users:
  assumes "updateBalancesForFill b t m f = Some b'"
    and "o_userId t \<noteq> o_userId m"
    and "b (o_userId t) = Some tb" and "b (o_userId m) = Some mb"
  shows "\<exists>tb' mb'. b' (o_userId t) = Some tb' \<and> b' (o_userId m) = Some mb' \<and>
     usdc tb' + usdc mb' = usdc tb + usdc mb \<and>
     yes tb' + yes mb' = yes tb + yes mb \<and>
     no tb' + no mb' = no tb + no mb \<and>
     (\<forall>u. u \<noteq> o_userId t \<and> u \<noteq> o_userId m \<longrightarrow> b' u = b u)"
  using assms
  by (cases "f_outcome f"; cases "o_side t")
     (auto simp: updateBalancesForFill_def Let_def addTokens_def)

text \<open>
  C1, at the failing input. alice, the only participant, rests a bid of 10 YES at 0.4
  and then sells 10 YES at 0.4; the sell matches her own bid. The fill debits and
  credits the same record: \<^verbatim>\<open>updateBalancesForFill\<close> stores the taker's copy and then
  overwrites it with the maker's copy, so the total cash falls from 1000 to 996 and
  the total of YES tokens rises from 100 to 110.
\<close>

theorem self_trade_not_conserved:
  "dom (st_balances selfTradeStart) = {''alice''} \<and>
   st_balances selfTradeStart ''alice'' = Some \<lparr>usdc = 1000, yes = 100, no = 100\<rparr> \<and>
   outcomeFor ''alice'' selfTradeRun =
     Some (True, None, [(''a'', 2/5, 10)], Some \<lparr>usdc = 996, yes = 110, no = 100\<rparr>)"
proof -
  have d: "dom (st_balances selfTradeStart) = {''alice''}"
    and a: "st_balances selfTradeStart ''alice'' = Some \<lparr>usdc = 1000, yes = 100, no = 100\<rparr>"
    by (auto simp: selfTradeStart_def matcher_eval)
  have r: "outcomeFor ''alice'' selfTradeRun =
     Some (True, None, [(''a'', 2/5, 10)], Some \<lparr>usdc = 996, yes = 110, no = 100\<rparr>)"
    by (simp add: selfTradeRun_def selfTradeStart_def matcher_eval)
  show ?thesis using d a r by simp
qed

subsection \<open>Non-negative balances (claim C4)\<close>

text \<open>
  C4, the counterexample. Every balance is non-negative at the start; bob has 10 in
  cash and places two bids of 20 at 0.5, each covered alone by the same 10 (validation
  passes twice, nothing is reserved); alice sells 40 at 0.5 into both. All three calls
  succeed and bob's cash is -10.
\<close>

theorem maker_overdrawn_counterexample:
  "st_balances overdrawStart ''alice'' = Some \<lparr>usdc = 0, yes = 40, no = 0\<rparr> \<and>
   st_balances overdrawStart ''bob'' = Some \<lparr>usdc = 10, yes = 0, no = 0\<rparr> \<and>
   dom (st_balances overdrawStart) = {''alice'', ''bob''} \<and>
   outcomeFor ''bob'' overdrawRun =
     Some (True, None, [(''b1'', 1/2, 20), (''b2'', 1/2, 20)], Some \<lparr>usdc = - 10, yes = 40, no = 0\<rparr>) \<and>
   \<not> balanceNonNegative \<lparr>usdc = - 10, yes = 40, no = 0\<rparr>"
proof -
  have a: "st_balances overdrawStart ''alice'' = Some \<lparr>usdc = 0, yes = 40, no = 0\<rparr>"
    and b: "st_balances overdrawStart ''bob'' = Some \<lparr>usdc = 10, yes = 0, no = 0\<rparr>"
    and d: "dom (st_balances overdrawStart) = {''alice'', ''bob''}"
    by (auto simp: overdrawStart_def matcher_eval)
  have r: "outcomeFor ''bob'' overdrawRun =
     Some (True, None, [(''b1'', 1/2, 20), (''b2'', 1/2, 20)], Some \<lparr>usdc = - 10, yes = 40, no = 0\<rparr>)"
    by (simp add: overdrawRun_def overdrawStart_def matcher_eval)
  have n: "\<not> balanceNonNegative \<lparr>usdc = - 10, yes = 40, no = 0\<rparr>"
    by (simp add: balanceNonNegative_def)
  show ?thesis using a b d r n by simp
qed

text \<open>
  The rest of this subsection is about the matcher with the arithmetic of the source,
  \<^verbatim>\<open>processOrder_fl\<close>. With the identity as rounding it is \<^verbatim>\<open>processOrder\<close>.
\<close>

lemma validateRequest_fl_exact: "validateRequest_fl (\<lambda>x. x) state rq = validateRequest state rq"
  unfolding validateRequest_fl_def validateRequest_def ..

lemma addTokens_fl_exact: "addTokens_fl (\<lambda>x. x) oc q b = addTokens oc q b"
  unfolding addTokens_fl_def addTokens_def ..

lemma updateBalancesForFill_fl_exact:
  "updateBalancesForFill_fl (\<lambda>x. x) b t m f = updateBalancesForFill b t m f"
  unfolding updateBalancesForFill_fl_def updateBalancesForFill_def addTokens_fl_exact ..

lemma fillStep_fl_exact: "fillStep_fl (\<lambda>x. x) env t r st = fillStep env t r st"
  unfolding fillStep_fl_def fillStep_def updateBalancesForFill_fl_exact ..

lemma matchLoop_fl_exact: "matchLoop_fl (\<lambda>x. x) env t rs st = matchLoop env t rs st"
  by (induction rs arbitrary: st) (simp_all add: fillStep_fl_exact split: option.splits)

lemma matchOrder_fl_exact: "matchOrder_fl (\<lambda>x. x) env h state t = matchOrder env h state t"
  unfolding matchOrder_fl_def matchOrder_def matchLoop_fl_exact ..

lemma lastPrices_fl_exact: "lastPrices_fl (\<lambda>x. x) = lastPrices"
  by (intro ext) (simp add: lastPrices_fl_def lastPrices_def)

lemma processOrder_fl_exact: "processOrder_fl (\<lambda>x. x) env h state rq = processOrder env h state rq"
  unfolding processOrder_fl_def processOrder_def validateRequest_fl_exact
    matchOrder_fl_exact lastPrices_fl_exact ..

lemma fillStep_fl_None:
  "fillStep_fl rnd env order r st = None \<longleftrightarrow>
     updateBalancesForFill_fl rnd (ms_balances st) order (ms_store st ! r) (theFill env order r st) = None"
  by (simp add: fillStep_fl_def theFill_def Let_def split: option.splits)

lemma fillStep_fl_Some:
  assumes "fillStep_fl rnd env order r st = Some st'"
  shows "ms_fills st' = ms_fills st @ [theFill env order r st]"
    and "ms_remainingQty st' =
           rnd (ms_remainingQty st - min (ms_remainingQty st) (o_remainingQuantity (ms_store st ! r)))"
    and "updateBalancesForFill_fl rnd (ms_balances st) order (ms_store st ! r) (theFill env order r st)
           = Some (ms_balances st')"
    and "ms_store st' = (ms_store st)[r := makerAfter_fl rnd r st]"
  using assms
  by (auto simp: fillStep_fl_def theFill_def makerAfter_fl_def Let_def split: option.splits if_splits)

lemma updateBalances_fl_None:
  "updateBalancesForFill_fl rnd b t m f = None \<longleftrightarrow> b (o_userId t) = None \<or> b (o_userId m) = None"
  by (simp add: updateBalancesForFill_fl_def Let_def split: option.splits)

lemma updateBalances_fl_keys:
  "updateBalancesForFill_fl rnd b t m f = Some b' \<Longrightarrow> (b' u = None \<longleftrightarrow> b u = None)"
  by (auto simp: updateBalancesForFill_fl_def Let_def split: option.splits if_splits)

lemma updateBalances_fl_other:
  "updateBalancesForFill_fl rnd b t m f = Some b' \<Longrightarrow> u \<noteq> o_userId t \<Longrightarrow> u \<noteq> o_userId m \<Longrightarrow>
   b' u = b u"
  by (auto simp: updateBalancesForFill_fl_def Let_def split: option.splits)

lemma makerAfter_fl_fields:
  "o_userId (makerAfter_fl rnd r st) = o_userId (ms_store st ! r)"
  "o_id (makerAfter_fl rnd r st) = o_id (ms_store st ! r)"
  "o_price (makerAfter_fl rnd r st) = o_price (ms_store st ! r)"
  "o_remainingQuantity (makerAfter_fl rnd r st) =
     rnd (o_remainingQuantity (ms_store st ! r)
          - min (ms_remainingQty st) (o_remainingQuantity (ms_store st ! r)))"
  by (simp_all add: makerAfter_fl_def Let_def)

lemma store_update_fl:
  "o_userId ((ms_store st)[r := makerAfter_fl rnd r st] ! r') = o_userId (ms_store st ! r')"
  "o_id ((ms_store st)[r := makerAfter_fl rnd r st] ! r') = o_id (ms_store st ! r')"
  "o_price ((ms_store st)[r := makerAfter_fl rnd r st] ! r') = o_price (ms_store st ! r')"
proof -
  have "(ms_store st)[r := makerAfter_fl rnd r st] ! r' = ms_store st ! r' \<or>
        (r' = r \<and> (ms_store st)[r := makerAfter_fl rnd r st] ! r' = makerAfter_fl rnd r st)"
    by (cases "r' = r"; cases "r < length (ms_store st)") (simp_all add: list_update_beyond)
  then show
    "o_userId ((ms_store st)[r := makerAfter_fl rnd r st] ! r') = o_userId (ms_store st ! r')"
    "o_id ((ms_store st)[r := makerAfter_fl rnd r st] ! r') = o_id (ms_store st ! r')"
    "o_price ((ms_store st)[r := makerAfter_fl rnd r st] ! r') = o_price (ms_store st ! r')"
    by (auto simp: makerAfter_fl_fields)
qed

lemma matchLoop_fl_total:
  assumes "ms_balances st (o_userId order) \<noteq> None"
    and "hasBalance (ms_balances st) (ms_store st) rs"
  shows "\<exists>st'. matchLoop_fl rnd env order rs st = Some st'"
  using assms
proof (induction rs arbitrary: st)
  case Nil
  then show ?case by simp
next
  case (Cons r rs)
  show ?case
  proof (cases "ms_remainingQty st \<le> 0 \<or> \<not> canMatch order (ms_store st ! r)")
    case True
    then show ?thesis by auto
  next
    case False
    have "fillStep_fl rnd env order r st \<noteq> None"
      using Cons.prems by (simp add: fillStep_fl_None updateBalances_fl_None hasBalance_def)
    then obtain st1 where st1: "fillStep_fl rnd env order r st = Some st1" by auto
    note f = fillStep_fl_Some [OF st1]
    have b1: "ms_balances st1 (o_userId order) \<noteq> None"
      using updateBalances_fl_keys [OF f(3)] Cons.prems(1) by simp
    have b2: "hasBalance (ms_balances st1) (ms_store st1) rs"
      using Cons.prems(2) updateBalances_fl_keys [OF f(3)]
      by (simp add: hasBalance_def f(4) store_update_fl list_all_iff)
    from Cons.IH [OF b1 b2] obtain st' where "matchLoop_fl rnd env order rs st1 = Some st'" by auto
    then show ?thesis using False st1 by simp
  qed
qed

text \<open>The first turn of the loop: it stops at once, or fills and goes on.\<close>

lemma matchLoop_fl_cases:
  assumes "matchLoop_fl rnd env t rs st = Some st'"
  obtains (stop) "st' = st"
  | (step) r rs' st1 where "rs = r # rs'" "0 < ms_remainingQty st" "canMatch t (ms_store st ! r)"
      "fillStep_fl rnd env t r st = Some st1" "matchLoop_fl rnd env t rs' st1 = Some st'"
proof (cases rs)
  case Nil
  then show ?thesis using assms stop by simp
next
  case (Cons r rs')
  show ?thesis
  proof (cases "ms_remainingQty st \<le> 0 \<or> \<not> canMatch t (ms_store st ! r)")
    case True
    then have "st' = st" using assms Cons by (auto split: if_splits)
    then show ?thesis by (rule stop)
  next
    case False
    then obtain st1 where "fillStep_fl rnd env t r st = Some st1"
      "matchLoop_fl rnd env t rs' st1 = Some st'"
      using assms Cons by (auto split: option.splits)
    then show ?thesis using step [OF Cons] False by auto
  qed
qed

lemma matchLoop_fl_fills:
  "matchLoop_fl rnd env t rs st = Some st' \<Longrightarrow> \<exists>fs. ms_fills st' = ms_fills st @ fs"
proof (induction rs arbitrary: st)
  case Nil
  then show ?case by simp
next
  case (Cons r rs)
  from Cons.prems show ?case
  proof (cases rule: matchLoop_fl_cases)
    case stop
    then show ?thesis by simp
  next
    case (step r' rs' st1)
    then have "matchLoop_fl rnd env t rs st1 = Some st'" and "r' = r" by simp_all
    then obtain fs where "ms_fills st' = ms_fills st1 @ fs" using Cons.IH by blast
    then show ?thesis using fillStep_fl_Some(1) [OF step(4)] by simp
  qed
qed

lemma matchLoop_fl_no_fill:
  assumes "matchLoop_fl rnd env t rs st = Some st'"
    and "length (ms_fills st') \<le> length (ms_fills st)"
  shows "st' = st"
  using assms(1)
proof (cases rule: matchLoop_fl_cases)
  case stop
  then show ?thesis .
next
  case (step r rs' st1)
  obtain fs where "ms_fills st' = ms_fills st1 @ fs"
    using matchLoop_fl_fills [OF step(5)] by blast
  then have "length (ms_fills st') > length (ms_fills st)"
    using fillStep_fl_Some(1) [OF step(4)] by simp
  then show ?thesis using assms(2) by simp
qed

lemma taker_balance_after_fl:
  assumes "updateBalancesForFill_fl rnd b t m f = Some b'"
    and "o_userId m \<noteq> o_userId t" and "b (o_userId t) = Some tb"
  shows "b' (o_userId t) =
     Some (if o_side t = BUY
           then addTokens_fl rnd (f_outcome f) (f_quantity f)
                  (tb\<lparr>usdc := rnd (usdc tb - rnd (f_price f * f_quantity f))\<rparr>)
           else addTokens_fl rnd (f_outcome f) (- f_quantity f)
                  (tb\<lparr>usdc := rnd (usdc tb + rnd (f_price f * f_quantity f))\<rparr>))"
  using assms
  by (auto simp: updateBalancesForFill_fl_def Let_def split: option.splits)

lemma addTokens_fl_fields:
  "usdc (addTokens_fl rnd oc q b) = usdc b"
  "yes (addTokens_fl rnd oc q b) = (if oc = YES then rnd (yes b + q) else yes b)"
  "no (addTokens_fl rnd oc q b) = (if oc = NO then rnd (no b + q) else no b)"
  "tokensOf oc (addTokens_fl rnd oc q b) = rnd (tokensOf oc b + q)"
  by (cases oc; simp add: addTokens_fl_def tokensOf_def)+

lemma tokensOf_usdc: "tokensOf oc (b\<lparr>usdc := x\<rparr>) = tokensOf oc b"
  by (cases oc) (simp_all add: tokensOf_def)

lemma rnd_nonneg: "mono rnd \<Longrightarrow> rnd 0 = 0 \<Longrightarrow> 0 \<le> x \<Longrightarrow> 0 \<le> rnd x"
  using monoD [of rnd 0 x] by simp

lemma takerSafe_step:
  assumes mono: "mono rnd" and zero: "rnd 0 = 0"
    and step: "fillStep_fl rnd env t r st = Some st1"
    and safe: "takerSafe t st"
    and go: "0 < ms_remainingQty st"
    and mk: "o_userId (ms_store st ! r) \<noteq> o_userId t"
            "0 \<le> o_remainingQuantity (ms_store st ! r)" "0 \<le> o_price (ms_store st ! r)"
  shows "takerSafe t st1"
proof -
  note f = fillStep_fl_Some [OF step]
  note nn = rnd_nonneg [OF mono zero]
  let ?m = "ms_store st ! r"
  let ?q = "min (ms_remainingQty st) (o_remainingQuantity ?m)"
  let ?p = "o_price ?m"
  let ?rem = "ms_remainingQty st"
  obtain b where b: "ms_balances st (o_userId t) = Some b"
    and tok: "0 \<le> yes b" "0 \<le> no b"
    and sell: "o_side t = SELL \<Longrightarrow> 0 \<le> usdc b \<and> ?rem \<le> tokensOf (o_outcome t) b"
    using safe by (auto simp: takerSafe_def split: option.splits)
  have q: "0 \<le> ?q" "?q \<le> ?rem" using go mk(2) by simp_all
  have pq: "0 \<le> rnd (?p * ?q)" using mk(3) q(1) by (intro nn) simp
  have fq: "f_quantity (theFill env t r st) = ?q" "f_price (theFill env t r st) = ?p"
           "f_outcome (theFill env t r st) = o_outcome t"
    by (simp_all add: theFill_def)
  note after = taker_balance_after_fl [OF f(3) mk(1) b, unfolded fq]
  show ?thesis
  proof (cases "o_side t")
    case BUY
    have y: "0 \<le> rnd (yes b + ?q)" and n: "0 \<le> rnd (no b + ?q)"
      using tok q(1) by (auto intro!: nn)
    show ?thesis
      using BUY after tok y n
      by (cases "o_outcome t") (simp_all add: takerSafe_def addTokens_fl_fields)
  next
    case SELL
    have u: "0 \<le> usdc b" and tk: "?rem \<le> tokensOf (o_outcome t) b" using sell [OF SELL] by simp_all
    have cash: "0 \<le> rnd (usdc b + rnd (?p * ?q))" using u pq by (intro nn) simp
    have cover: "rnd (?rem - ?q) \<le> rnd (tokensOf (o_outcome t) b + - ?q)"
      using tk by (intro monoD [OF mono]) simp
    have left: "0 \<le> rnd (?rem - ?q)" using q(2) by (intro nn) simp
    have t0: "0 \<le> rnd (tokensOf (o_outcome t) b + - ?q)" using cover left by simp
    show ?thesis
      using SELL after tok cash cover t0 f(2)
      by (cases "o_outcome t")
         (simp_all add: takerSafe_def addTokens_fl_fields tokensOf_usdc tokensOf_def)
  qed
qed

lemma foreignMakers_step_fl:
  assumes mono: "mono rnd" and zero: "rnd 0 = 0"
    and step: "fillStep_fl rnd env t r st = Some st1"
    and go: "0 < ms_remainingQty st"
    and mk: "foreignMakers u (ms_balances st) (ms_store st) (r # rs)"
  shows "foreignMakers u (ms_balances st1) (ms_store st1) rs"
proof -
  note f = fillStep_fl_Some [OF step]
  have keys: "ms_balances st1 x \<noteq> None \<longleftrightarrow> ms_balances st x \<noteq> None" for x
    using updateBalances_fl_keys [OF f(3), of x] by simp
  have r0: "0 \<le> o_remainingQuantity (ms_store st ! r)"
    using mk by (simp add: foreignMakers_def)
  have left: "0 \<le> o_remainingQuantity (makerAfter_fl rnd r st)"
    unfolding makerAfter_fl_fields using r0 go by (intro rnd_nonneg [OF mono zero]) simp
  have one: "o_userId (ms_store st1 ! r') \<noteq> u \<and>
             ms_balances st1 (o_userId (ms_store st1 ! r')) \<noteq> None \<and>
             0 \<le> o_remainingQuantity (ms_store st1 ! r') \<and> 0 \<le> o_price (ms_store st1 ! r')"
    if "r' \<in> set rs" for r'
  proof -
    have old: "o_userId (ms_store st ! r') \<noteq> u"
      "ms_balances st (o_userId (ms_store st ! r')) \<noteq> None"
      "0 \<le> o_remainingQuantity (ms_store st ! r')" "0 \<le> o_price (ms_store st ! r')"
      using mk that by (simp_all add: foreignMakers_def list_all_iff)
    have same: "o_userId (ms_store st1 ! r') = o_userId (ms_store st ! r')"
      "o_price (ms_store st1 ! r') = o_price (ms_store st ! r')"
      by (simp_all add: f(4) store_update_fl)
    have rem: "0 \<le> o_remainingQuantity (ms_store st1 ! r')"
    proof (cases "r' = r \<and> r < length (ms_store st)")
      case True
      then have "ms_store st1 ! r' = makerAfter_fl rnd r st" by (simp add: f(4))
      then show ?thesis using left by simp
    next
      case False
      then have "ms_store st1 ! r' = ms_store st ! r'"
        by (cases "r' = r") (simp_all add: f(4) list_update_beyond)
      then show ?thesis using old(3) by simp
    qed
    show ?thesis using old same rem keys [of "o_userId (ms_store st ! r')"] by simp
  qed
  then show ?thesis by (simp add: foreignMakers_def list_all_iff)
qed

lemma takerSafe_loop:
  assumes mono: "mono rnd" and zero: "rnd 0 = 0"
    and "matchLoop_fl rnd env t rs st = Some st'"
    and "takerSafe t st"
    and "foreignMakers (o_userId t) (ms_balances st) (ms_store st) rs"
  shows "takerSafe t st'"
  using assms(3-5)
proof (induction rs arbitrary: st)
  case Nil
  then show ?case by simp
next
  case (Cons r rs)
  from Cons.prems(1) show ?case
  proof (cases rule: matchLoop_fl_cases)
    case stop
    then show ?thesis using Cons.prems(2) by simp
  next
    case (step r' rs' st1)
    then have eq: "r' = r" "rs' = rs" by simp_all
    note st1 = step(4) [unfolded eq] and loop = step(5) [unfolded eq]
    have mk: "o_userId (ms_store st ! r) \<noteq> o_userId t"
      "0 \<le> o_remainingQuantity (ms_store st ! r)" "0 \<le> o_price (ms_store st ! r)"
      using Cons.prems(3) by (simp_all add: foreignMakers_def)
    have c1: "takerSafe t st1"
      by (rule takerSafe_step [OF mono zero st1 Cons.prems(2) step(2) mk])
    have f1: "foreignMakers (o_userId t) (ms_balances st1) (ms_store st1) rs"
      by (rule foreignMakers_step_fl [OF mono zero st1 step(2) Cons.prems(3)])
    show ?thesis by (rule Cons.IH [OF loop c1 f1])
  qed
qed

text \<open>Users who are party to no fill keep their balance records.\<close>

lemma makerOf_iff:
  "makerOf h rs fs u \<longleftrightarrow>
     (\<exists>f\<in>set fs. \<exists>r\<in>set rs. o_id (h ! r) = f_makerOrderId f \<and> o_userId (h ! r) = u)"
  by (simp add: makerOf_def list_ex_iff)

lemma matchLoop_fl_frame:
  assumes "matchLoop_fl rnd env t rs st = Some st'"
    and "u \<noteq> o_userId t"
    and "\<not> makerOf (ms_store st) rs (drop (length (ms_fills st)) (ms_fills st')) u"
  shows "ms_balances st' u = ms_balances st u"
  using assms(1,3)
proof (induction rs arbitrary: st)
  case Nil
  then show ?case by simp
next
  case (Cons r rs)
  from Cons.prems(1) show ?case
  proof (cases rule: matchLoop_fl_cases)
    case stop
    then show ?thesis by simp
  next
    case (step r' rs' st1)
    then have eq: "r' = r" "rs' = rs" by simp_all
    note st1 = step(4) [unfolded eq] and loop = step(5) [unfolded eq]
    note f = fillStep_fl_Some [OF st1]
    obtain fs where fs: "ms_fills st' = ms_fills st1 @ fs"
      using matchLoop_fl_fills [OF loop] by blast
    have new: "drop (length (ms_fills st)) (ms_fills st') = theFill env t r st # fs"
      "drop (length (ms_fills st1)) (ms_fills st') = fs"
      by (simp_all add: fs f(1))
    have none: "\<not> (o_id (ms_store st ! x) = f_makerOrderId g \<and> o_userId (ms_store st ! x) = u)"
      if "g \<in> set (theFill env t r st # fs)" "x \<in> set (r # rs)" for g x
      using Cons.prems(2) that unfolding new(1) makerOf_iff by blast
    have "o_userId (ms_store st ! r) \<noteq> u"
      using none [of "theFill env t r st" r] by (simp add: theFill_def)
    then have one: "ms_balances st1 u = ms_balances st u"
      using updateBalances_fl_other [OF f(3) assms(2)] by simp
    have "\<not> makerOf (ms_store st1) rs (drop (length (ms_fills st1)) (ms_fills st')) u"
      unfolding new(2) makerOf_iff f(4) store_update_fl using none by auto
    then have "ms_balances st' u = ms_balances st1 u" by (rule Cons.IH [OF loop])
    then show ?thesis using one by simp
  qed
qed

lemma validate_fl_ok:
  assumes "validateRequest_fl rnd state rq = None"
  shows "\<exists>b. st_balances state (rq_userId rq) = Some b \<and> 0 < rq_quantity rq \<and>
     (rq_type rq = LIMIT \<longrightarrow> (\<exists>p. rq_price rq = Some p \<and> 0 < p \<and> p < 1)) \<and>
     (if rq_side rq = BUY then rnd (priceOr1 (rq_price rq) * rq_quantity rq) \<le> usdc b
      else rq_quantity rq \<le> tokensOf (rq_outcome rq) b)"
proof (cases "st_balances state (rq_userId rq)")
  case None
  then show ?thesis using assms by (simp add: validateRequest_fl_def)
next
  case (Some b)
  have q: "0 < rq_quantity rq"
    using assms Some by (simp add: validateRequest_fl_def split: if_splits)
  have l: "rq_type rq = LIMIT \<longrightarrow> (\<exists>p. rq_price rq = Some p \<and> 0 < p \<and> p < 1)"
    using assms Some
    by (cases "rq_price rq") (auto simp: validateRequest_fl_def split: if_splits)
  have c: "if rq_side rq = BUY then rnd (priceOr1 (rq_price rq) * rq_quantity rq) \<le> usdc b
      else rq_quantity rq \<le> tokensOf (rq_outcome rq) b"
    using assms Some
    by (auto simp: validateRequest_fl_def Let_def split: if_splits)
  show ?thesis using Some q l c by simp
qed

text \<open>A buy that fills at most once: the one debit is covered by the cash that validation saw.\<close>

lemma buyer_single_fill:
  assumes mono: "mono rnd" and zero: "rnd 0 = 0"
    and loop: "matchLoop_fl rnd env t rs st = Some st'"
    and one: "length (ms_fills st') \<le> length (ms_fills st) + 1"
    and buy: "o_side t = BUY"
    and bal: "ms_balances st (o_userId t) = Some b" "0 \<le> usdc b"
    and cash: "rnd (o_price t * ms_remainingQty st) \<le> usdc b"
    and mk: "foreignMakers (o_userId t) (ms_balances st) (ms_store st) rs"
  shows "\<exists>b'. ms_balances st' (o_userId t) = Some b' \<and> 0 \<le> usdc b'"
  using loop
proof (cases rule: matchLoop_fl_cases)
  case stop
  then show ?thesis using bal by simp
next
  case (step r rs' st1)
  note f = fillStep_fl_Some [OF step(4)]
  have "length (ms_fills st') \<le> length (ms_fills st1)" using one f(1) by simp
  then have same: "st' = st1" by (rule matchLoop_fl_no_fill [OF step(5)])
  let ?m = "ms_store st ! r"
  let ?q = "min (ms_remainingQty st) (o_remainingQuantity ?m)"
  let ?p = "o_price ?m"
  have m: "o_userId ?m \<noteq> o_userId t" "0 \<le> o_remainingQuantity ?m" "0 \<le> ?p"
    using mk step(1) by (simp_all add: foreignMakers_def)
  have q: "0 \<le> ?q" "?q \<le> ms_remainingQty st" using step(2) m(2) by simp_all
  have p: "?p \<le> o_price t" using step(3) buy by (simp add: canMatch_def)
  have "?p * ?q \<le> o_price t * ms_remainingQty st"
    using p q m(3) by (intro mult_mono) simp_all
  then have "rnd (?p * ?q) \<le> rnd (o_price t * ms_remainingQty st)" by (rule monoD [OF mono])
  then have "0 \<le> usdc b - rnd (?p * ?q)" using cash by simp
  then have left: "0 \<le> rnd (usdc b - rnd (?p * ?q))" by (rule rnd_nonneg [OF mono zero])
  have fq: "f_quantity (theFill env t r st) = ?q" "f_price (theFill env t r st) = ?p"
    by (simp_all add: theFill_def)
  note after = taker_balance_after_fl [OF f(3) m(1) bal(1), unfolded fq]
  show ?thesis unfolding same using after buy left by (simp add: addTokens_fl_fields)
qed

lemma createOrder_fields:
  "o_userId (createOrder env rq) = rq_userId rq"
  "o_side (createOrder env rq) = rq_side rq"
  "o_outcome (createOrder env rq) = rq_outcome rq"
  "o_type (createOrder env rq) = rq_type rq"
  "o_quantity (createOrder env rq) = rq_quantity rq"
  "o_id (createOrder env rq) = newId env 0"
  by (simp_all add: createOrder_def)

lemma processOrder_fl_accepted:
  assumes "validateRequest_fl rnd state rq = None"
    and "matchLoop_fl rnd env (createOrder env rq)
           (getMatchableOrders h (st_orderbook state) (createOrder env rq))
           \<lparr>ms_fills = [], ms_remainingQty = o_quantity (createOrder env rq),
            ms_balances = st_balances state, ms_orderbook = st_orderbook state,
            ms_store = h\<rparr> = Some st'"
  shows "\<exists>res h'. processOrder_fl rnd env h state rq = Some (res, h') \<and> r_success res \<and>
           r_error res = None \<and> r_fills res = ms_fills st' \<and>
           st_balances (r_newState res) = ms_balances st'"
  using assms by (simp add: processOrder_fl_def matchOrder_fl_def Let_def)

lemma mono_quarters: "mono quarters"
  by (rule monoI) (simp add: quarters_def floor_mono)

lemmas fl_eval =
  processOrder_fl_def validateRequest_fl_def matchOrder_fl_def createOrder_def
  getMatchableOrders_def sortAsks_def sortBids_def sortBy_def addToOrderbook_def
  fillStep_fl_def canMatch_def updateBalancesForFill_fl_def addTokens_fl_def
  removeFromOrderbook_def lastPrices_fl_def Let_def tokensOf_def bidBefore_def askBefore_def
  priceOr1_def mkEnv_def seeded_def createInitialState_def limitReq_def demoAsk_def
  outcomeFor_def fillTriple_def quarters_def roundingStore_def roundingState_def

text \<open>
  Validation compares the cash of a buyer once, with the rounded product of price and
  quantity; every fill debits its own rounded product. With the rounding to quarters
  alice, who holds 3/4, buys 1 YES at 3/4: the product 3/4 passes validation, the two
  fills of 1/2 at 3/4 debit 1/2 each (3/8 rounds to 1/2), and her cash ends at -1/4.
  In binary64 the same happens to a user with 1000 in cash who buys 2500 at 0.4
  against asks of 3 and 2497 at 0.4: the product 0.4 * 2500 rounds to 1000, the debits
  are 1.2000000000000002 and 998.8000000000001, and the cash ends at
  -1.1368683772161603e-13.
\<close>

lemma rounded_debits_exceed_cover:
  "validateRequest_fl quarters roundingState (limitReq ''alice'' BUY YES (3/4) 1) = None \<and>
   outcomeFor ''alice''
     (processOrder_fl quarters (mkEnv ''t'' 10) roundingStore roundingState
        (limitReq ''alice'' BUY YES (3/4) 1)) =
     Some (True, None, [(''b1'', 3/4, 1/2), (''c1'', 3/4, 1/2)],
           Some \<lparr>usdc = - (1/4), yes = 2, no = 0\<rparr>)"
  by (simp add: fl_eval)

text \<open>
  C4, as amended. One call of \<^verbatim>\<open>processOrder\<close> on a request that passes validation
  returns success and drives none of these balances negative: the balances of the users
  who are party to no fill of the call, which it leaves as they are; the requesting
  user's two token balances; the requesting user's cash when the request is a sell; and
  the requesting user's cash when the request is a buy (a limit order, or a market
  order without a price) that is filled at most once. This holds with the arithmetic of
  the source, for every rounding that is monotone and keeps zero, as the rounding to
  the nearest double is, when the requesting user's balances are not negative before
  the call and the resting orders of the opposing side belong to other users who have
  balance records, with prices and remaining quantities that are not negative. The
  other balances are not part of the statement: validation looks at the requesting
  user only and resting orders reserve nothing, so the owner of a resting order can be
  overdrawn when it is filled; and the cash of a buyer is compared with one rounded
  product and debited by one rounded product for each fill.
\<close>

theorem accepted_order_balances:
  assumes mono: "mono rnd" and zero: "rnd 0 = 0"
    and valid: "validateRequest_fl rnd state rq = None"
    and bal: "st_balances state (rq_userId rq) = Some b0"
    and nn0: "balanceNonNegative b0"
    and makers: "foreignMakers (rq_userId rq) (st_balances state) h
                   (oppositeSide (st_orderbook state) (createOrder env rq))"
  shows "\<exists>res h' b. processOrder_fl rnd env h state rq = Some (res, h') \<and> r_success res \<and>
           st_balances (r_newState res) (rq_userId rq) = Some b \<and>
           0 \<le> yes b \<and> 0 \<le> no b \<and>
           (rq_side rq = SELL \<longrightarrow> 0 \<le> usdc b) \<and>
           (rq_side rq = BUY \<and> (rq_type rq = LIMIT \<or> rq_price rq = None) \<and>
              length (r_fills res) \<le> 1 \<longrightarrow> 0 \<le> usdc b) \<and>
           (\<forall>u. u \<noteq> rq_userId rq \<and>
                 \<not> makerOf h (oppositeSide (st_orderbook state) (createOrder env rq)) (r_fills res) u
                 \<longrightarrow> st_balances (r_newState res) u = st_balances state u)"
proof -
  have nn: "0 \<le> usdc b0" "0 \<le> yes b0" "0 \<le> no b0"
    using nn0 by (simp_all add: balanceNonNegative_def)
  let ?t = "createOrder env rq"
  let ?rs = "getMatchableOrders h (st_orderbook state) ?t"
  let ?st0 = "\<lparr>ms_fills = [], ms_remainingQty = o_quantity ?t,
                ms_balances = st_balances state, ms_orderbook = st_orderbook state,
                ms_store = h\<rparr>"
  from validate_fl_ok [OF valid] bal have q: "0 < rq_quantity rq"
    and lim: "rq_type rq = LIMIT \<longrightarrow> (\<exists>p. rq_price rq = Some p \<and> 0 < p \<and> p < 1)"
    and cash: "if rq_side rq = BUY then rnd (priceOr1 (rq_price rq) * rq_quantity rq) \<le> usdc b0
               else rq_quantity rq \<le> tokensOf (rq_outcome rq) b0"
    by auto
  have safe0: "takerSafe ?t ?st0"
    using bal nn cash by (simp add: takerSafe_def createOrder_fields)
  have s: "set ?rs = set (oppositeSide (st_orderbook state) ?t)"
    using mset_eq_setD [OF getMatchableOrders_perm] .
  have fm0: "foreignMakers (o_userId ?t) (ms_balances ?st0) (ms_store ?st0) ?rs"
    using makers by (simp add: foreignMakers_def list_all_iff s createOrder_fields)
  have hb: "hasBalance (ms_balances ?st0) (ms_store ?st0) ?rs"
    using fm0 by (simp add: foreignMakers_def hasBalance_def list_all_iff)
  have tb: "ms_balances ?st0 (o_userId ?t) \<noteq> None" using bal by (simp add: createOrder_fields)
  from matchLoop_fl_total [OF tb hb] obtain st' where
    loop: "matchLoop_fl rnd env ?t ?rs ?st0 = Some st'" by blast
  have safe: "takerSafe ?t st'" by (rule takerSafe_loop [OF mono zero loop safe0 fm0])
  then obtain b where b: "ms_balances st' (rq_userId rq) = Some b"
    and tok: "0 \<le> yes b" "0 \<le> no b" and sell: "rq_side rq = SELL \<longrightarrow> 0 \<le> usdc b"
    by (auto simp: takerSafe_def createOrder_fields split: option.splits)
  have buy: "0 \<le> usdc b"
    if k: "rq_side rq = BUY" "rq_type rq = LIMIT \<or> rq_price rq = None"
      and n: "length (ms_fills st') \<le> 1"
  proof -
    have price: "o_price ?t = priceOr1 (rq_price rq)"
      using lim k by (cases "rq_type rq") (auto simp: createOrder_def priceOr1_def)
    have c: "rnd (o_price ?t * ms_remainingQty ?st0) \<le> usdc b0"
      using cash k(1) by (simp add: price createOrder_fields)
    have "\<exists>b'. ms_balances st' (o_userId ?t) = Some b' \<and> 0 \<le> usdc b'"
      by (rule buyer_single_fill [OF mono zero loop _ _ _ nn(1) c fm0])
         (use n k(1) bal in \<open>simp_all add: createOrder_fields\<close>)
    then show ?thesis using b by (simp add: createOrder_fields)
  qed
  have frame: "ms_balances st' u = st_balances state u"
    if "u \<noteq> rq_userId rq"
      "\<not> makerOf h (oppositeSide (st_orderbook state) ?t) (ms_fills st') u" for u
  proof -
    have "\<not> makerOf (ms_store ?st0) ?rs (drop (length (ms_fills ?st0)) (ms_fills st')) u"
      using that(2) by (simp add: makerOf_iff s)
    from matchLoop_fl_frame [OF loop _ this] that(1) show ?thesis
      by (simp add: createOrder_fields)
  qed
  obtain res h' where p: "processOrder_fl rnd env h state rq = Some (res, h')"
    and ok: "r_success res" and fs: "r_fills res = ms_fills st'"
    and nb: "st_balances (r_newState res) = ms_balances st'"
    using processOrder_fl_accepted [OF valid loop] by blast
  show ?thesis
  proof (intro exI conjI allI impI)
    show "processOrder_fl rnd env h state rq = Some (res, h')" by (rule p)
    show "r_success res" by (rule ok)
    show "st_balances (r_newState res) (rq_userId rq) = Some b" using nb b by simp
    show "0 \<le> yes b" "0 \<le> no b" by (rule tok)+
    show "0 \<le> usdc b" if "rq_side rq = SELL" using sell that by simp
    show "0 \<le> usdc b"
      if "rq_side rq = BUY \<and> (rq_type rq = LIMIT \<or> rq_price rq = None) \<and> length (r_fills res) \<le> 1"
      using buy that fs by simp
    show "st_balances (r_newState res) u = st_balances state u"
      if "u \<noteq> rq_userId rq \<and>
          \<not> makerOf h (oppositeSide (st_orderbook state) ?t) (r_fills res) u" for u
      using frame [of u] that fs nb by simp
  qed
qed

theorem accepted_order_balances_witness:
  "mono quarters \<and> quarters 0 = 0 \<and>
   st_balances roundingState ''alice'' = Some \<lparr>usdc = 3/4, yes = 1, no = 0\<rparr> \<and>
   balanceNonNegative \<lparr>usdc = 3/4, yes = 1, no = 0\<rparr> \<and>
   validateRequest_fl quarters roundingState (limitReq ''alice'' BUY YES (3/4) (1/2)) = None \<and>
   foreignMakers ''alice'' (st_balances roundingState) roundingStore
     (oppositeSide (st_orderbook roundingState)
        (createOrder (mkEnv ''t'' 10) (limitReq ''alice'' BUY YES (3/4) (1/2)))) \<and>
   (\<exists>res h' b.
      processOrder_fl quarters (mkEnv ''t'' 10) roundingStore roundingState
        (limitReq ''alice'' BUY YES (3/4) (1/2)) = Some (res, h') \<and>
      r_success res \<and> length (r_fills res) = 1 \<and>
      st_balances (r_newState res) ''alice'' = Some b \<and>
      0 \<le> yes b \<and> 0 \<le> no b \<and> 0 \<le> usdc b \<and>
      st_balances (r_newState res) ''dave'' = st_balances roundingState ''dave'') \<and>
   validateRequest_fl quarters roundingState (limitReq ''alice'' SELL YES (1/4) (1/2)) = None \<and>
   foreignMakers ''alice'' (st_balances roundingState) roundingStore
     (oppositeSide (st_orderbook roundingState)
        (createOrder (mkEnv ''t'' 10) (limitReq ''alice'' SELL YES (1/4) (1/2)))) \<and>
   (\<exists>res h' b.
      processOrder_fl quarters (mkEnv ''t'' 10) roundingStore roundingState
        (limitReq ''alice'' SELL YES (1/4) (1/2)) = Some (res, h') \<and>
      r_success res \<and>
      st_balances (r_newState res) ''alice'' = Some b \<and>
      0 \<le> yes b \<and> 0 \<le> no b \<and> 0 \<le> usdc b \<and>
      st_balances (r_newState res) ''dave'' = st_balances roundingState ''dave'')"
proof -
  let ?env = "mkEnv ''t'' 10"
  let ?buy = "limitReq ''alice'' BUY YES (3/4) (1/2)"
  let ?sell = "limitReq ''alice'' SELL YES (1/4) (1/2)"
  let ?b0 = "\<lparr>usdc = 3/4, yes = 1, no = 0\<rparr>"
  have m: "mono quarters" by (rule mono_quarters)
  have z: "quarters 0 = 0" by (simp add: quarters_def)
  have a: "st_balances roundingState ''alice'' = Some ?b0" by (simp add: fl_eval)
  have n: "balanceNonNegative ?b0" by (simp add: balanceNonNegative_def)
  have u: "rq_userId ?buy = ''alice''" "rq_userId ?sell = ''alice''"
    "rq_side ?buy = BUY" "rq_type ?buy = LIMIT" "rq_side ?sell = SELL"
    by (simp_all add: limitReq_def)
  have v1: "validateRequest_fl quarters roundingState ?buy = None" by (simp add: fl_eval)
  have v2: "validateRequest_fl quarters roundingState ?sell = None" by (simp add: fl_eval)
  have f1: "foreignMakers ''alice'' (st_balances roundingState) roundingStore
              (oppositeSide (st_orderbook roundingState) (createOrder ?env ?buy))"
    by (simp add: foreignMakers_def oppositeSide_def fl_eval)
  have f2: "foreignMakers ''alice'' (st_balances roundingState) roundingStore
              (oppositeSide (st_orderbook roundingState) (createOrder ?env ?sell))"
    by (simp add: foreignMakers_def oppositeSide_def fl_eval)
  have d1: "\<not> makerOf roundingStore
              (oppositeSide (st_orderbook roundingState) (createOrder ?env ?buy)) fs ''dave''" for fs
    by (simp add: makerOf_iff oppositeSide_def fl_eval)
  have d2: "\<not> makerOf roundingStore
              (oppositeSide (st_orderbook roundingState) (createOrder ?env ?sell)) fs ''dave''" for fs
    by (simp add: makerOf_iff oppositeSide_def fl_eval)
  have e1: "outcomeFor ''alice'' (processOrder_fl quarters ?env roundingStore roundingState ?buy) =
     Some (True, None, [(''b1'', 3/4, 1/2)], Some \<lparr>usdc = 1/4, yes = 3/2, no = 0\<rparr>)"
    by (simp add: fl_eval)
  have buy: "\<exists>res h' b.
      processOrder_fl quarters ?env roundingStore roundingState ?buy = Some (res, h') \<and>
      r_success res \<and> length (r_fills res) = 1 \<and>
      st_balances (r_newState res) ''alice'' = Some b \<and>
      0 \<le> yes b \<and> 0 \<le> no b \<and> 0 \<le> usdc b \<and>
      st_balances (r_newState res) ''dave'' = st_balances roundingState ''dave''"
  proof -
    from accepted_order_balances
           [where rq = ?buy and env = ?env and h = roundingStore and state = roundingState
              and rnd = quarters and ?b0.0 = ?b0, unfolded u(1), OF m z v1 a n f1]
    obtain res h' b where
      r: "processOrder_fl quarters ?env roundingStore roundingState ?buy = Some (res, h')"
        "r_success res" "st_balances (r_newState res) ''alice'' = Some b"
        "0 \<le> yes b" "0 \<le> no b"
      and c: "rq_side ?buy = BUY \<and> (rq_type ?buy = LIMIT \<or> rq_price ?buy = None) \<and>
                length (r_fills res) \<le> 1 \<longrightarrow> 0 \<le> usdc b"
      and fr: "\<forall>u. u \<noteq> ''alice'' \<and>
                 \<not> makerOf roundingStore
                     (oppositeSide (st_orderbook roundingState) (createOrder ?env ?buy))
                     (r_fills res) u
                 \<longrightarrow> st_balances (r_newState res) u = st_balances roundingState u"
      by (elim exE conjE)
    have "map fillTriple (r_fills res) = [(''b1'', 3/4, 1/2)]"
      using e1 unfolding r(1) by (simp add: outcomeFor_def)
    then have "length (map fillTriple (r_fills res)) = 1" by simp
    then have len: "length (r_fills res) = 1" by simp
    have cash: "0 \<le> usdc b" using c len u(3,4) by simp
    have dave: "st_balances (r_newState res) ''dave'' = st_balances roundingState ''dave''"
      using fr d1 [of "r_fills res"] by simp
    show ?thesis using r len cash dave by blast
  qed
  have sell: "\<exists>res h' b.
      processOrder_fl quarters ?env roundingStore roundingState ?sell = Some (res, h') \<and>
      r_success res \<and>
      st_balances (r_newState res) ''alice'' = Some b \<and>
      0 \<le> yes b \<and> 0 \<le> no b \<and> 0 \<le> usdc b \<and>
      st_balances (r_newState res) ''dave'' = st_balances roundingState ''dave''"
  proof -
    from accepted_order_balances
           [where rq = ?sell and env = ?env and h = roundingStore and state = roundingState
              and rnd = quarters and ?b0.0 = ?b0, unfolded u(2), OF m z v2 a n f2]
    obtain res h' b where
      r: "processOrder_fl quarters ?env roundingStore roundingState ?sell = Some (res, h')"
        "r_success res" "st_balances (r_newState res) ''alice'' = Some b"
        "0 \<le> yes b" "0 \<le> no b"
      and c: "rq_side ?sell = SELL \<longrightarrow> 0 \<le> usdc b"
      and fr: "\<forall>u. u \<noteq> ''alice'' \<and>
                 \<not> makerOf roundingStore
                     (oppositeSide (st_orderbook roundingState) (createOrder ?env ?sell))
                     (r_fills res) u
                 \<longrightarrow> st_balances (r_newState res) u = st_balances roundingState u"
      by (elim exE conjE)
    have cash: "0 \<le> usdc b" using c u(5) by simp
    have dave: "st_balances (r_newState res) ''dave'' = st_balances roundingState ''dave''"
      using fr d2 [of "r_fills res"] by simp
    show ?thesis using r cash dave by blast
  qed
  show ?thesis
    apply (intro conjI)
            apply (rule m)
           apply (rule z)
          apply (rule a)
         apply (rule n)
        apply (rule v1)
       apply (rule f1)
      apply (rule buy)
     apply (rule v2)
    apply (rule f2)
    apply (rule sell)
    done
qed

subsection \<open>Validation (claim C5)\<close>

text \<open>A request that fails validation changes nothing, and these requests fail it.\<close>

lemma validation_failure_no_mutation:
  "validateRequest s rq = Some e \<Longrightarrow>
   processOrder env h s rq =
     Some (\<lparr>r_success = False, r_error = Some e, r_order = None, r_fills = [], r_newState = s\<rparr>, h)"
  by (simp add: processOrder_def)

lemma validation_rejects:
  assumes "st_balances s (rq_userId rq) = None \<or> rq_quantity rq \<le> 0 \<or>
     (rq_type rq = LIMIT \<and> (case rq_price rq of None \<Rightarrow> True | Some p \<Rightarrow> p \<le> 0 \<or> 1 \<le> p)) \<or>
     (\<exists>b. st_balances s (rq_userId rq) = Some b \<and>
        ((rq_side rq = BUY \<and> rq_type rq = LIMIT \<and>
            (\<exists>p. rq_price rq = Some p \<and> usdc b < p * rq_quantity rq)) \<or>
         (rq_side rq = BUY \<and> rq_type rq = MARKET \<and> rq_price rq = None \<and>
            usdc b < 1 * rq_quantity rq) \<or>
         (rq_side rq = SELL \<and> tokensOf (rq_outcome rq) b < rq_quantity rq)))"
  shows "validateRequest s rq \<noteq> None"
proof (cases "st_balances s (rq_userId rq)")
  case None
  then show ?thesis by (simp add: validateRequest_def)
next
  case (Some b)
  show ?thesis
  proof (cases "rq_quantity rq \<le> 0 \<or>
      (rq_type rq = LIMIT \<and> (case rq_price rq of None \<Rightarrow> True | Some p \<Rightarrow> p \<le> 0 \<or> 1 \<le> p))")
    case True
    then show ?thesis using Some
      by (cases "rq_price rq") (auto simp: validateRequest_def Let_def)
  next
    case False
    then have rest: "(rq_side rq = BUY \<and> rq_type rq = LIMIT \<and>
            (\<exists>p. rq_price rq = Some p \<and> usdc b < p * rq_quantity rq)) \<or>
         (rq_side rq = BUY \<and> rq_type rq = MARKET \<and> rq_price rq = None \<and>
            usdc b < 1 * rq_quantity rq) \<or>
         (rq_side rq = SELL \<and> tokensOf (rq_outcome rq) b < rq_quantity rq)"
      using assms Some by auto
    have lim: "rq_type rq = LIMIT \<Longrightarrow> rq_price rq = Some p \<Longrightarrow> priceOr1 (rq_price rq) = p" for p
      using False by (auto simp: priceOr1_def)
    show ?thesis using rest Some lim
      by (cases "rq_side rq") (auto simp: validateRequest_def Let_def priceOr1_def)
  qed
qed

text \<open>
  C5, at the failing input. alice has 6 in cash and sends a market buy of 10 that
  carries the price 0.5. The worst-case cost at price 1 is 10, but
  \<^verbatim>\<open>validateRequest\<close> computes \<^verbatim>\<open>(request.price || 1) * quantity\<close> = 5 and accepts;
  \<^verbatim>\<open>processOrder\<close> prices the market buy at 1, fills 10 at the resting ask of 0.9,
  returns success and leaves alice with -3 in cash.
\<close>

theorem priced_market_buy_accepted:
  "st_balances pricedMarketState ''alice'' = Some \<lparr>usdc = 6, yes = 0, no = 0\<rparr> \<and>
   (6 :: real) < 1 * rq_quantity pricedMarketRequest \<and>
   validateRequest pricedMarketState pricedMarketRequest = None \<and>
   outcomeFor ''alice''
     (processOrder (mkEnv ''t'' 10) [demoAsk ''b1'' ''bob'' (9/10) 10 1]
        pricedMarketState pricedMarketRequest) =
     Some (True, None, [(''b1'', 9/10, 10)], Some \<lparr>usdc = - 3, yes = 10, no = 0\<rparr>)"
proof -
  have a: "st_balances pricedMarketState ''alice'' = Some \<lparr>usdc = 6, yes = 0, no = 0\<rparr>"
    by (simp add: pricedMarketState_def matcher_eval)
  have q: "(6 :: real) < 1 * rq_quantity pricedMarketRequest"
    by (simp add: pricedMarketRequest_def)
  have v: "validateRequest pricedMarketState pricedMarketRequest = None"
    by (simp add: pricedMarketState_def pricedMarketRequest_def matcher_eval)
  have r: "outcomeFor ''alice''
     (processOrder (mkEnv ''t'' 10) [demoAsk ''b1'' ''bob'' (9/10) 10 1]
        pricedMarketState pricedMarketRequest) =
     Some (True, None, [(''b1'', 9/10, 10)], Some \<lparr>usdc = - 3, yes = 10, no = 0\<rparr>)"
    by (simp add: pricedMarketState_def pricedMarketRequest_def matcher_eval)
  show ?thesis using a q v r by simp
qed

subsection \<open>Cancellation (claim C8)\<close>

lemma findIndex_None: "findIndex P xs = None \<longleftrightarrow> (\<forall>x\<in>set xs. \<not> P x)"
  by (induction xs) auto

lemma findIndex_Some_filter:
  assumes "findIndex P xs = Some i"
    and "distinct (map key xs)"
    and "\<And>x y. P x \<Longrightarrow> P y \<Longrightarrow> key x = key y"
  shows "take i xs @ drop (i + 1) xs = filter (\<lambda>x. \<not> P x) xs"
  using assms(1,2)
proof (induction xs arbitrary: i)
  case Nil
  then show ?case by simp
next
  case (Cons x xs)
  show ?case
  proof (cases "P x")
    case True
    then have i: "i = 0" using Cons.prems(1) by simp
    have "\<not> P y" if "y \<in> set xs" for y
    proof
      assume "P y"
      then have "key x = key y" using True assms(3) by blast
      then show False using Cons.prems(2) that by auto
    qed
    then have "filter (\<lambda>x. \<not> P x) xs = xs" by (simp add: filter_id_conv)
    then show ?thesis using True i by simp
  next
    case False
    then obtain j where j: "findIndex P xs = Some j" "i = Suc j"
      using Cons.prems(1) by auto
    have "take j xs @ drop (j + 1) xs = filter (\<lambda>x. \<not> P x) xs"
      using Cons.IH [OF j(1)] Cons.prems(2) by simp
    then show ?thesis using False j(2) by simp
  qed
qed

lemma removeFromList_eq:
  assumes "distinct (map (\<lambda>r. o_id (h ! r)) rs)"
  shows "removeFromList h orderId userId rs =
           (filter (\<lambda>r. \<not> isOrderOf h orderId userId r) rs,
            list_ex (isOrderOf h orderId userId) rs)"
proof (cases "findIndex (isOrderOf h orderId userId) rs")
  case None
  then have no: "\<forall>r\<in>set rs. \<not> isOrderOf h orderId userId r"
    by (simp add: findIndex_None)
  then have "filter (\<lambda>r. \<not> isOrderOf h orderId userId r) rs = rs"
    by (simp add: filter_id_conv)
  moreover have "\<not> list_ex (isOrderOf h orderId userId) rs"
    using no by (simp add: list_ex_iff)
  moreover have "removeFromList h orderId userId rs = (rs, False)"
    using None by (simp add: removeFromList_def isOrderOf_def [abs_def])
  ultimately show ?thesis by simp
next
  case (Some i)
  then have "\<not> (\<forall>r\<in>set rs. \<not> isOrderOf h orderId userId r)"
    using findIndex_None [of "isOrderOf h orderId userId" rs] by simp
  then have ex: "list_ex (isOrderOf h orderId userId) rs" by (simp add: list_ex_iff)
  have "take i rs @ drop (i + 1) rs = filter (\<lambda>r. \<not> isOrderOf h orderId userId r) rs"
    by (rule findIndex_Some_filter [OF Some assms]) (simp add: isOrderOf_def)
  moreover have "removeFromList h orderId userId rs = (take i rs @ drop (i + 1) rs, True)"
    using Some by (simp add: removeFromList_def isOrderOf_def [abs_def])
  ultimately show ?thesis using ex by simp
qed

lemma removeFromList_absent:
  assumes "\<not> list_ex (isOrderOf h orderId userId) rs"
  shows "removeFromList h orderId userId rs = (rs, False)"
proof -
  have "findIndex (isOrderOf h orderId userId) rs = None"
    using assms by (simp add: findIndex_None list_ex_iff)
  then show ?thesis by (simp add: removeFromList_def isOrderOf_def [abs_def])
qed

lemma cancelOrder_spec:
  assumes "uniqueIds h (st_orderbook s)"
  shows "cancelOrder now h s orderId userId =
     (if resting h (st_orderbook s) orderId userId
      then s\<lparr>st_orderbook := withoutOrder h orderId userId (st_orderbook s),
             st_sequence := st_sequence s + 1, st_timestamp := now\<rparr>
      else s)"
  using assms
  by (simp add: cancelOrder_def Let_def uniqueIds_def removeFromList_eq resting_def allRefs_def
      withoutOrder_def)

lemma cancelOrder_absent:
  assumes "\<not> resting h (st_orderbook s) orderId userId"
  shows "cancelOrder now h s orderId userId = s"
  using assms
  by (simp add: cancelOrder_def Let_def resting_def allRefs_def removeFromList_absent)

lemma not_resting_withoutOrder:
  "\<not> resting h (withoutOrder h orderId userId b) orderId userId"
  by (auto simp: resting_def withoutOrder_def allRefs_def list_ex_iff)

text \<open>
  C8. In a book where no array holds an order id twice, \<^verbatim>\<open>cancelOrder\<close> is the
  specification's cancellation: when an order with the id and the owner rests on some
  side, the new state has every such order removed from all four arrays (the other
  orders stay, in their order), the sequence raised by one and the new timestamp;
  when none rests, the result is the input state. The model's function is total: no
  error. After the call no such order rests, and cancelling again, at any later time,
  gives the state of the first cancellation.
\<close>

theorem cancelOrder_idempotent:
  assumes "uniqueIds h (st_orderbook s)"
  shows "cancelOrder now h s orderId userId =
     (if resting h (st_orderbook s) orderId userId
      then s\<lparr>st_orderbook := withoutOrder h orderId userId (st_orderbook s),
             st_sequence := st_sequence s + 1, st_timestamp := now\<rparr>
      else s) \<and>
     \<not> resting h (st_orderbook (cancelOrder now h s orderId userId)) orderId userId \<and>
     cancelOrder now' h (cancelOrder now h s orderId userId) orderId userId =
       cancelOrder now h s orderId userId"
proof -
  note c = cancelOrder_spec [OF assms, of now orderId userId]
  have gone: "\<not> resting h (st_orderbook (cancelOrder now h s orderId userId)) orderId userId"
    by (cases "resting h (st_orderbook s) orderId userId")
       (simp_all add: c not_resting_withoutOrder)
  show ?thesis using c gone cancelOrder_absent [OF gone, of now'] by simp
qed

theorem cancelOrder_idempotent_witness:
  "uniqueIds demoStore (st_orderbook demoState) \<and>
   resting demoStore (st_orderbook demoState) ''b1'' ''bob'' \<and>
   st_orderbook (cancelOrder 50 demoStore demoState ''b1'' ''bob'') =
     \<lparr>yesBids = [], yesAsks = [1], noBids = [], noAsks = []\<rparr> \<and>
   st_sequence (cancelOrder 50 demoStore demoState ''b1'' ''bob'') = 1 \<and>
   cancelOrder 60 demoStore (cancelOrder 50 demoStore demoState ''b1'' ''bob'') ''b1'' ''bob'' =
     cancelOrder 50 demoStore demoState ''b1'' ''bob'' \<and>
   cancelOrder 50 demoStore demoState ''b1'' ''alice'' = demoState"
proof -
  have u: "uniqueIds demoStore (st_orderbook demoState)"
    by (simp add: uniqueIds_def matcher_eval)
  have r: "resting demoStore (st_orderbook demoState) ''b1'' ''bob''"
    by (simp add: resting_def allRefs_def isOrderOf_def matcher_eval)
  have n: "\<not> resting demoStore (st_orderbook demoState) ''b1'' ''alice''"
    by (simp add: resting_def allRefs_def isOrderOf_def matcher_eval)
  have w: "withoutOrder demoStore ''b1'' ''bob'' (st_orderbook demoState) =
             \<lparr>yesBids = [], yesAsks = [1], noBids = [], noAsks = []\<rparr>"
    by (simp add: withoutOrder_def isOrderOf_def matcher_eval)
  have q: "st_sequence demoState = 0" by (simp add: matcher_eval)
  note c1 = cancelOrder_idempotent [OF u, of 50 "''b1''" "''bob''" 60]
  note c2 = cancelOrder_idempotent [OF u, of 50 "''b1''" "''alice''" 60]
  have a: "st_orderbook (cancelOrder 50 demoStore demoState ''b1'' ''bob'') =
     \<lparr>yesBids = [], yesAsks = [1], noBids = [], noAsks = []\<rparr>"
    using c1 r w by simp
  have b: "st_sequence (cancelOrder 50 demoStore demoState ''b1'' ''bob'') = 1"
    using c1 r q by simp
  have c: "cancelOrder 60 demoStore (cancelOrder 50 demoStore demoState ''b1'' ''bob'') ''b1'' ''bob'' =
     cancelOrder 50 demoStore demoState ''b1'' ''bob''"
    using c1 by (rule conjunct2 [THEN conjunct2])
  have d: "cancelOrder 50 demoStore demoState ''b1'' ''alice'' = demoState"
    using c2 n by simp
  show ?thesis using u r a b c d by simp
qed

subsection \<open>Invariants of the matcher\<close>

text \<open>
  The well-formed states are kept by every operation of the matcher, given that
  \<^verbatim>\<open>generateId\<close> returns an id that no resting order has: the initial state is
  well formed, and \<^verbatim>\<open>initUserBalance\<close>, \<^verbatim>\<open>cancelOrder\<close> and \<^verbatim>\<open>processOrder\<close>
  lead from well-formed states to well-formed states. A well-formed state has a
  well-formed book, unique ids in every array, and a balance record for the owner of
  every resting order.
\<close>

lemma sideOk_shrink:
  assumes "sideOk h oc sd rs"
    and "length h' \<ge> length h"
    and "\<And>r. r < length h \<Longrightarrow> o_id (h' ! r) = o_id (h ! r) \<and>
            o_outcome (h' ! r) = o_outcome (h ! r) \<and> o_side (h' ! r) = o_side (h ! r)"
  shows "sideOk h' oc sd (filter P rs)"
proof -
  have in_range: "\<forall>r\<in>set rs. r < length h" using assms(1) by (simp add: sideOk_def list_all_iff)
  then have same: "map (\<lambda>r. o_id (h' ! r)) rs = map (\<lambda>r. o_id (h ! r)) rs"
    using assms(3) by simp
  have "distinct (map (\<lambda>r. o_id (h ! r)) rs)" using assms(1) by (simp add: sideOk_def)
  then have "distinct (map (\<lambda>r. o_id (h' ! r)) rs)" by (simp only: same)
  then have d: "distinct (map (\<lambda>r. o_id (h' ! r)) (filter P rs))"
    by (rule distinct_map_filter)
  have "\<forall>r\<in>set rs. r < length h' \<and> o_outcome (h' ! r) = oc \<and> o_side (h' ! r) = sd"
    using assms by (fastforce simp: sideOk_def list_all_iff)
  then show ?thesis using d by (simp add: sideOk_def list_all_iff)
qed

lemma sideOk_same:
  assumes "sideOk h oc sd rs"
    and "length h' \<ge> length h"
    and "\<And>r. r < length h \<Longrightarrow> o_id (h' ! r) = o_id (h ! r) \<and>
            o_outcome (h' ! r) = o_outcome (h ! r) \<and> o_side (h' ! r) = o_side (h ! r)"
  shows "sideOk h' oc sd rs"
  using sideOk_shrink [OF assms, of "\<lambda>r. True"] by simp

lemma wfBook_remove:
  assumes "wfBook h b"
    and "length h' \<ge> length h"
    and "\<And>r. r < length h \<Longrightarrow> o_id (h' ! r) = o_id (h ! r) \<and>
            o_outcome (h' ! r) = o_outcome (h ! r) \<and> o_side (h' ! r) = o_side (h ! r)"
  shows "wfBook h' (removeFromOrderbook h' b m)" and "wfBook h' b"
proof -
  note s = sideOk_shrink [OF _ assms(2,3)] sideOk_same [OF _ assms(2,3)]
  show "wfBook h' b" using assms(1) s(2) by (simp add: wfBook_def)
  show "wfBook h' (removeFromOrderbook h' b m)"
    using assms(1) s by (simp add: wfBook_def removeFromOrderbook_def)
qed

lemma store_update_same:
  assumes "r' < length (ms_store st)"
  shows "o_id ((ms_store st)[r := makerAfter r st] ! r') = o_id (ms_store st ! r') \<and>
         o_outcome ((ms_store st)[r := makerAfter r st] ! r') = o_outcome (ms_store st ! r') \<and>
         o_side ((ms_store st)[r := makerAfter r st] ! r') = o_side (ms_store st ! r')"
proof (cases "r' = r")
  case True
  then have "(ms_store st)[r := makerAfter r st] ! r' = makerAfter r st"
    using assms by simp
  then show ?thesis using True by (simp only: makerAfter_fields)
next
  case False
  then show ?thesis by simp
qed

lemma fillStep_wfBook:
  assumes "fillStep env t r st = Some st1" and "wfBook (ms_store st) (ms_orderbook st)"
  shows "wfBook (ms_store st1) (ms_orderbook st1)"
    and "length (ms_store st1) = length (ms_store st)"
    and "set (allRefs (ms_orderbook st1)) \<subseteq> set (allRefs (ms_orderbook st))"
proof -
  note f = fillStep_Some [OF assms(1)]
  have len: "length (ms_store st1) \<ge> length (ms_store st)" by (simp add: f(4))
  have same: "o_id (ms_store st1 ! r') = o_id (ms_store st ! r') \<and>
       o_outcome (ms_store st1 ! r') = o_outcome (ms_store st ! r') \<and>
       o_side (ms_store st1 ! r') = o_side (ms_store st ! r')"
    if "r' < length (ms_store st)" for r'
    using store_update_same [OF that, of r] by (simp add: f(4))
  note w = wfBook_remove [OF assms(2) len same]
  show "wfBook (ms_store st1) (ms_orderbook st1)"
    by (cases "o_remainingQuantity (makerAfter r st) = 0") (simp_all add: f(5) w)
  show "length (ms_store st1) = length (ms_store st)" by (simp add: f(4))
  show "set (allRefs (ms_orderbook st1)) \<subseteq> set (allRefs (ms_orderbook st))"
    by (cases "o_remainingQuantity (makerAfter r st) = 0")
       (auto simp: f(5) allRefs_def removeFromOrderbook_def)
qed

lemma matchLoop_wfBook:
  assumes "matchLoop env t rs st = Some st'" and "wfBook (ms_store st) (ms_orderbook st)"
  shows "wfBook (ms_store st') (ms_orderbook st') \<and>
         length (ms_store st') = length (ms_store st) \<and>
         set (allRefs (ms_orderbook st')) \<subseteq> set (allRefs (ms_orderbook st)) \<and>
         (\<forall>r. o_userId (ms_store st' ! r) = o_userId (ms_store st ! r)) \<and>
         (\<forall>r. o_id (ms_store st' ! r) = o_id (ms_store st ! r)) \<and>
         (\<forall>u. ms_balances st' u = None \<longleftrightarrow> ms_balances st u = None)"
  using assms
proof (induction rs arbitrary: st)
  case Nil
  then show ?case by simp
next
  case (Cons r rs)
  show ?case
  proof (cases "ms_remainingQty st \<le> 0 \<or> \<not> canMatch t (ms_store st ! r)")
    case True
    then have "st' = st" using Cons.prems(1) by (auto split: if_splits)
    then show ?thesis using Cons.prems(2) by simp
  next
    case False
    then obtain st1 where st1: "fillStep env t r st = Some st1"
      and loop: "matchLoop env t rs st1 = Some st'"
      using Cons.prems(1) by (auto split: option.splits)
    note f = fillStep_Some [OF st1]
    note w = fillStep_wfBook [OF st1 Cons.prems(2)]
    note ih = Cons.IH [OF loop w(1)]
    have u: "o_userId (ms_store st1 ! r') = o_userId (ms_store st ! r')" for r'
      by (simp add: f(4) store_update_userId)
    have i: "o_id (ms_store st1 ! r') = o_id (ms_store st ! r')" for r'
    proof (cases "r' = r \<and> r < length (ms_store st)")
      case True
      then show ?thesis by (simp add: f(4) makerAfter_fields)
    next
      case False
      then show ?thesis by (cases "r' = r") (simp_all add: f(4) list_update_beyond)
    qed
    have k: "ms_balances st1 x = None \<longleftrightarrow> ms_balances st x = None" for x
      using updateBalances_keys [OF f(3)] .
    show ?thesis using ih w(2,3) u i k by auto
  qed
qed

lemma sideOk_add:
  assumes "sideOk h oc sd rs"
    and "o_outcome x = oc" and "o_side x = sd"
    and "o_id x \<notin> (\<lambda>r. o_id (h ! r)) ` set rs"
    and "mset rs' = mset (rs @ [length h])"
  shows "sideOk (h @ [x]) oc sd rs'"
proof -
  have rng: "\<forall>r\<in>set rs. r < length h" using assms(1) by (simp add: sideOk_def list_all_iff)
  have old: "(h @ [x]) ! r = h ! r" if "r \<in> set rs" for r
    using rng that by (simp add: nth_append)
  have new: "(h @ [x]) ! length h = x" by simp
  have ids: "map (\<lambda>r. o_id ((h @ [x]) ! r)) (rs @ [length h]) =
               map (\<lambda>r. o_id (h ! r)) rs @ [o_id x]"
    using old by simp
  have "distinct (map (\<lambda>r. o_id (h ! r)) rs @ [o_id x])"
    using assms(1,4) by (simp add: sideOk_def)
  then have d0: "distinct (map (\<lambda>r. o_id ((h @ [x]) ! r)) (rs @ [length h]))"
    by (simp only: ids)
  have "mset (map (\<lambda>r. o_id ((h @ [x]) ! r)) rs') =
        mset (map (\<lambda>r. o_id ((h @ [x]) ! r)) (rs @ [length h]))"
    using assms(5) by (metis mset_map)
  then have d: "distinct (map (\<lambda>r. o_id ((h @ [x]) ! r)) rs')"
    using d0 mset_eq_imp_distinct_iff by blast
  have s: "set rs' = set (rs @ [length h])" using mset_eq_setD [OF assms(5)] .
  have "\<forall>r\<in>set (rs @ [length h]).
          r < length (h @ [x]) \<and> o_outcome ((h @ [x]) ! r) = oc \<and> o_side ((h @ [x]) ! r) = sd"
  proof
    fix r assume "r \<in> set (rs @ [length h])"
    then consider "r \<in> set rs" | "r = length h" by auto
    then show "r < length (h @ [x]) \<and> o_outcome ((h @ [x]) ! r) = oc \<and> o_side ((h @ [x]) ! r) = sd"
    proof cases
      case 1
      then show ?thesis using assms(1) old [OF 1] by (auto simp: sideOk_def list_all_iff)
    next
      case 2
      then show ?thesis using assms(2,3) by simp
    qed
  qed
  then show ?thesis using d s by (simp add: sideOk_def list_all_iff)
qed

lemma sideOk_append_store:
  assumes "sideOk h oc sd rs"
  shows "sideOk (h @ [x]) oc sd rs"
proof (rule sideOk_same [OF assms])
  show "length h \<le> length (h @ [x])" by simp
  show "o_id ((h @ [x]) ! r) = o_id (h ! r) \<and> o_outcome ((h @ [x]) ! r) = o_outcome (h ! r) \<and>
        o_side ((h @ [x]) ! r) = o_side (h ! r)" if "r < length h" for r
    using that by (simp add: nth_append)
qed

lemma wfBook_addToOrderbook:
  assumes "wfBook h b" and "o_id x \<notin> bookIds h b"
  shows "wfBook (h @ [x]) (addToOrderbook (h @ [x]) b (length h))"
proof -
  have fresh: "o_id x \<notin> (\<lambda>r. o_id (h ! r)) ` set (yesBids b)"
    "o_id x \<notin> (\<lambda>r. o_id (h ! r)) ` set (yesAsks b)"
    "o_id x \<notin> (\<lambda>r. o_id (h ! r)) ` set (noBids b)"
    "o_id x \<notin> (\<lambda>r. o_id (h ! r)) ` set (noAsks b)"
    using assms(2) by (auto simp: bookIds_def allRefs_def)
  have ok: "sideOk h YES BUY (yesBids b)" "sideOk h YES SELL (yesAsks b)"
    "sideOk h NO BUY (noBids b)" "sideOk h NO SELL (noAsks b)"
    using assms(1) by (simp_all add: wfBook_def)
  note keep = ok [THEN sideOk_append_store, of x]
  have x: "(h @ [x]) ! length h = x" by simp
  show ?thesis
  proof (cases "o_outcome x"; cases "o_side x")
    assume c: "o_outcome x = YES" "o_side x = BUY"
    have "sideOk (h @ [x]) YES BUY (sortBids (h @ [x]) (yesBids b @ [length h]))"
      by (rule sideOk_add [OF ok(1) c fresh(1)]) (rule mset_sortBids)
    then show ?thesis using c keep by (simp add: wfBook_def addToOrderbook_def x)
  next
    assume c: "o_outcome x = YES" "o_side x = SELL"
    have "sideOk (h @ [x]) YES SELL (sortAsks (h @ [x]) (yesAsks b @ [length h]))"
      by (rule sideOk_add [OF ok(2) c fresh(2)]) (rule mset_sortAsks)
    then show ?thesis using c keep by (simp add: wfBook_def addToOrderbook_def x)
  next
    assume c: "o_outcome x = NO" "o_side x = BUY"
    have "sideOk (h @ [x]) NO BUY (sortBids (h @ [x]) (noBids b @ [length h]))"
      by (rule sideOk_add [OF ok(3) c fresh(3)]) (rule mset_sortBids)
    then show ?thesis using c keep by (simp add: wfBook_def addToOrderbook_def x)
  next
    assume c: "o_outcome x = NO" "o_side x = SELL"
    have "sideOk (h @ [x]) NO SELL (sortAsks (h @ [x]) (noAsks b @ [length h]))"
      by (rule sideOk_add [OF ok(4) c fresh(4)]) (rule mset_sortAsks)
    then show ?thesis using c keep by (simp add: wfBook_def addToOrderbook_def x)
  qed
qed

lemma allRefs_addToOrderbook:
  "set (allRefs (addToOrderbook h b r)) = insert r (set (allRefs b))"
proof -
  have "set (sortBids h rs) = set rs" "set (sortAsks h rs) = set rs" for rs
    using mset_eq_setD [OF mset_sortBids] mset_eq_setD [OF mset_sortAsks] by auto
  then show ?thesis
    by (cases "o_outcome (h ! r)"; cases "o_side (h ! r)")
       (auto simp: addToOrderbook_def allRefs_def)
qed

lemma wfState_initial: "wfState [] (createInitialState now marketId question)"
  by (simp add: wfState_def wfBook_def sideOk_def hasBalance_def allRefs_def createInitialState_def)

lemma wfState_initUserBalance:
  "wfState h s \<Longrightarrow> wfState h (initUserBalance now s u amount)"
  by (auto simp: wfState_def hasBalance_def initUserBalance_def list_all_iff)

lemma wfState_cancelOrder:
  assumes "wfState h s"
  shows "wfState h (cancelOrder now h s orderId userId)"
proof -
  have u: "uniqueIds h (st_orderbook s)"
    using assms by (simp add: wfState_def wfBook_def sideOk_def uniqueIds_def)
  have keep: "sideOk h oc sd (filter P rs)" if "sideOk h oc sd rs" for oc sd rs P
    using sideOk_shrink [OF that, of h P] by simp
  show ?thesis
  proof (cases "resting h (st_orderbook s) orderId userId")
    case False
    then show ?thesis using assms by (simp add: cancelOrder_absent)
  next
    case True
    have w: "wfBook h (withoutOrder h orderId userId (st_orderbook s))"
      using assms keep by (simp add: wfState_def wfBook_def withoutOrder_def)
    have b: "hasBalance (st_balances s) h (allRefs (withoutOrder h orderId userId (st_orderbook s)))"
      using assms by (auto simp: wfState_def hasBalance_def allRefs_def withoutOrder_def list_all_iff)
    show ?thesis using True w b by (simp add: cancelOrder_spec [OF u] wfState_def)
  qed
qed

lemma nth_update_same_field:
  assumes "f y = f (xs ! n)"
  shows "f (xs[n := y] ! r) = f (xs ! r)"
proof (cases "n < length xs")
  case True
  then show ?thesis using assms by (cases "r = n") simp_all
next
  case False
  then show ?thesis by (simp add: list_update_beyond not_less)
qed

lemma processOrder_accepted:
  assumes "validateRequest s rq = None" and "matchOrder env h s (createOrder env rq) = Some m"
  shows "processOrder env h s rq =
     Some (\<lparr>r_success = True, r_error = None, r_order = Some (length (m_store m)),
            r_fills = m_fills m,
            r_newState = s\<lparr>
              st_orderbook :=
                (if o_remainingQuantity (m_updatedOrder m) > 0 \<and> o_type (m_updatedOrder m) = LIMIT
                 then addToOrderbook (m_store m @ [m_updatedOrder m]) (m_updatedOrderbook m)
                        (length (m_store m))
                 else m_updatedOrderbook m),
              st_balances := m_updatedBalances m,
              st_fills := st_fills s @ m_fills m,
              st_sequence := st_sequence s + 1,
              st_timestamp := clock env (length (m_fills m) + 1),
              st_lastYesPrice := fst (foldl lastPrices (st_lastYesPrice s, st_lastNoPrice s) (m_fills m)),
              st_lastNoPrice := snd (foldl lastPrices (st_lastYesPrice s, st_lastNoPrice s) (m_fills m))\<rparr>\<rparr>,
           (if o_remainingQuantity (m_updatedOrder m) = 0
            then (m_store m @ [m_updatedOrder m])
                   [length (m_store m) := (m_updatedOrder m)\<lparr>o_status := FILLED\<rparr>]
            else if o_remainingQuantity (m_updatedOrder m) < o_quantity (m_updatedOrder m)
            then (m_store m @ [m_updatedOrder m])
                   [length (m_store m) := (m_updatedOrder m)\<lparr>o_status := PARTIAL\<rparr>]
            else m_store m @ [m_updatedOrder m]))"
  using assms by (simp add: processOrder_def Let_def)

lemma wfState_processOrder:
  assumes wf: "wfState h s"
    and fresh: "newId env 0 \<notin> bookIds h (st_orderbook s)"
    and run: "processOrder env h s rq = Some (res, h')"
  shows "wfState h' (r_newState res)"
proof (cases "validateRequest s rq")
  case (Some e)
  then have "h' = h" "r_newState res = s" using run by (auto simp: processOrder_def)
  then show ?thesis using wf by simp
next
  case None
  let ?t = "createOrder env rq"
  let ?st0 = "\<lparr>ms_fills = [], ms_remainingQty = o_quantity ?t,
                ms_balances = st_balances s, ms_orderbook = st_orderbook s, ms_store = h\<rparr>"
  obtain m where m: "matchOrder env h s ?t = Some m"
    using run None by (cases "matchOrder env h s ?t") (auto simp: processOrder_def)
  then obtain st' where loop:
    "matchLoop env ?t (getMatchableOrders h (st_orderbook s) ?t) ?st0 = Some st'"
    and mm: "m_fills m = ms_fills st'"
      "m_updatedOrder m = ?t\<lparr>o_remainingQuantity := ms_remainingQty st'\<rparr>"
      "m_updatedOrderbook m = ms_orderbook st'" "m_updatedBalances m = ms_balances st'"
      "m_store m = ms_store st'"
    by (auto simp: matchOrder_def Let_def split: option.splits)
  have wf0: "wfBook (ms_store ?st0) (ms_orderbook ?st0)" using wf by (simp add: wfState_def)
  from matchLoop_wfBook [OF loop wf0] have l:
    "wfBook (ms_store st') (ms_orderbook st')" "length (ms_store st') = length h"
    "set (allRefs (ms_orderbook st')) \<subseteq> set (allRefs (st_orderbook s))"
    "\<And>r. o_userId (ms_store st' ! r) = o_userId (h ! r)"
    "\<And>r. o_id (ms_store st' ! r) = o_id (h ! r)"
    "\<And>u. ms_balances st' u = None \<longleftrightarrow> st_balances s u = None"
    by simp_all
  let ?x = "?t\<lparr>o_remainingQuantity := ms_remainingQty st'\<rparr>"
  let ?r = "length (ms_store st')"
  let ?h1 = "ms_store st' @ [?x]"
  let ?book = "if 0 < o_remainingQuantity ?x \<and> o_type ?x = LIMIT
               then addToOrderbook ?h1 (ms_orderbook st') ?r else ms_orderbook st'"
  have idx: "o_id ?x = newId env 0" "o_userId ?x = rq_userId rq"
    by (simp_all add: createOrder_def)
  have fresh': "o_id ?x \<notin> bookIds (ms_store st') (ms_orderbook st')"
    using fresh l(3) l(5) by (auto simp: bookIds_def idx)
  have wb1: "wfBook ?h1 ?book"
  proof (cases "0 < o_remainingQuantity ?x \<and> o_type ?x = LIMIT")
    case True
    show ?thesis unfolding if_P [OF True] by (rule wfBook_addToOrderbook [OF l(1) fresh'])
  next
    case False
    have "wfBook ?h1 (ms_orderbook st')"
      using l(1) sideOk_append_store by (simp add: wfBook_def)
    then show ?thesis unfolding if_not_P [OF False] .
  qed
  have refs: "set (allRefs ?book) \<subseteq> insert ?r (set (allRefs (ms_orderbook st')))"
    by (auto simp: allRefs_addToOrderbook)
  have mx: "m_updatedOrder m = ?x" "m_store m = ms_store st'"
    "m_updatedOrderbook m = ms_orderbook st'" "m_updatedBalances m = ms_balances st'"
    by (simp_all only: mm)
  note acc = processOrder_accepted [OF None m, unfolded mx]
  have h': "h' = (if o_remainingQuantity ?x = 0 then ?h1[?r := ?x\<lparr>o_status := FILLED\<rparr>]
                  else if o_remainingQuantity ?x < o_quantity ?x
                  then ?h1[?r := ?x\<lparr>o_status := PARTIAL\<rparr>] else ?h1)"
    using run unfolding acc by (elim Pair_inject [OF option.inject [THEN iffD1]]) (rule sym)
  have res: "r_newState res = s\<lparr>st_orderbook := ?book, st_balances := ms_balances st',
              st_fills := st_fills s @ m_fills m,
              st_sequence := st_sequence s + 1,
              st_timestamp := clock env (length (m_fills m) + 1),
              st_lastYesPrice := fst (foldl lastPrices (st_lastYesPrice s, st_lastNoPrice s) (m_fills m)),
              st_lastNoPrice := snd (foldl lastPrices (st_lastYesPrice s, st_lastNoPrice s) (m_fills m))\<rparr>"
    using run unfolding acc by auto
  have ns: "st_orderbook (r_newState res) = ?book"
           "st_balances (r_newState res) = ms_balances st'"
    by (simp_all only: res) simp_all
  have upd: "length (?h1[?r := y]) = length ?h1 \<and>
      (\<forall>r. o_id (?h1[?r := y] ! r) = o_id (?h1 ! r) \<and>
           o_outcome (?h1[?r := y] ! r) = o_outcome (?h1 ! r) \<and>
           o_side (?h1[?r := y] ! r) = o_side (?h1 ! r) \<and>
           o_userId (?h1[?r := y] ! r) = o_userId (?h1 ! r))"
    if y: "o_id y = o_id ?x" "o_outcome y = o_outcome ?x" "o_side y = o_side ?x"
       "o_userId y = o_userId ?x" for y
  proof (intro conjI allI)
    show "length (?h1[?r := y]) = length ?h1" by simp
    fix r
    have at: "?h1 ! ?r = ?x" by simp
    show "o_id (?h1[?r := y] ! r) = o_id (?h1 ! r)"
      by (rule nth_update_same_field) (simp only: at y(1))
    show "o_outcome (?h1[?r := y] ! r) = o_outcome (?h1 ! r)"
      by (rule nth_update_same_field) (simp only: at y(2))
    show "o_side (?h1[?r := y] ! r) = o_side (?h1 ! r)"
      by (rule nth_update_same_field) (simp only: at y(3))
    show "o_userId (?h1[?r := y] ! r) = o_userId (?h1 ! r)"
      by (rule nth_update_same_field) (simp only: at y(4))
  qed
  have same: "length h' = length ?h1 \<and>
      (\<forall>r. o_id (h' ! r) = o_id (?h1 ! r) \<and> o_outcome (h' ! r) = o_outcome (?h1 ! r) \<and>
           o_side (h' ! r) = o_side (?h1 ! r) \<and> o_userId (h' ! r) = o_userId (?h1 ! r))"
  proof -
    consider (filled) "h' = ?h1[?r := ?x\<lparr>o_status := FILLED\<rparr>]"
      | (partial) "h' = ?h1[?r := ?x\<lparr>o_status := PARTIAL\<rparr>]"
      | (opened) "h' = ?h1"
      using h' by metis
    then show ?thesis
    proof cases
      case filled
      show ?thesis unfolding filled by (rule upd) simp_all
    next
      case partial
      show ?thesis unfolding partial by (rule upd) simp_all
    next
      case opened
      then show ?thesis by simp
    qed
  qed
  have wb: "wfBook h' ?book"
    using wfBook_remove(2) [OF wb1, of h'] same by simp
  have taker: "st_balances s (rq_userId rq) \<noteq> None"
    using None by (auto simp: validateRequest_def split: option.splits)
  have hb: "hasBalance (ms_balances st') h' (allRefs ?book)"
  proof -
    have "ms_balances st' (o_userId (h' ! r)) \<noteq> None" if mem: "r \<in> set (allRefs ?book)" for r
    proof -
      consider "r = ?r" | "r \<in> set (allRefs (ms_orderbook st'))" using mem refs by blast
      then show ?thesis
      proof cases
        case 1
        then have "o_userId (h' ! r) = rq_userId rq" using same idx(2) by simp
        then show ?thesis using taker l(6) by simp
      next
        case 2
        have in_old: "r \<in> set (allRefs (st_orderbook s))" using 2 l(3) by auto
        have "r < length (ms_store st')"
          using l(1) 2 by (auto simp: wfBook_def allRefs_def dest: sideOk_member)
        then have "o_userId (h' ! r) = o_userId (h ! r)"
          using same l(4) by (simp add: nth_append)
        moreover have "st_balances s (o_userId (h ! r)) \<noteq> None"
          using wf in_old by (simp add: wfState_def hasBalance_def list_all_iff)
        ultimately show ?thesis using l(6) by simp
      qed
    qed
    then show ?thesis by (simp add: hasBalance_def list_all_iff)
  qed
  show ?thesis using wb hb by (simp add: wfState_def ns)
qed

lemma wfState_parts:
  assumes "wfState h s"
  shows "wfBook h (st_orderbook s)"
    and "uniqueIds h (st_orderbook s)"
    and "hasBalance (st_balances s) h (allRefs (st_orderbook s))"
  using assms by (simp_all add: wfState_def wfBook_def sideOk_def uniqueIds_def)

section \<open>Export and import of force-exit proofs (channel.ts, lines 173-192)\<close>

subsection \<open>The JSON built-ins\<close>

text \<open>
  \<^verbatim>\<open>exportProof\<close> and \<^verbatim>\<open>importProof\<close> call the built-ins
  \<^verbatim>\<open>JSON.stringify(value, null, 2)\<close> and \<^verbatim>\<open>JSON.parse\<close>. They are modelled on the
  values a force-exit proof is made of: objects (their keys in insertion order, no key
  twice), arrays, strings, integers, booleans and null. Strings are lists of 8-bit
  characters; numbers with a fraction or an exponent, NaN and the infinities are
  outside the model (the parser gives \<open>None\<close> on a fraction or exponent).
\<close>

datatype json = JNull | JBool bool | JNumber int | JString string
  | JArray "json list" | JObject "(string \<times> json) list"

text \<open>Digits, and the escapes of \<^verbatim>\<open>QuoteJSONString\<close>.\<close>

fun indexOf :: "'a \<Rightarrow> 'a list \<Rightarrow> nat option" where
  "indexOf c [] = None"
| "indexOf c (x # xs) = (if x = c then Some 0 else map_option Suc (indexOf c xs))"

definition hexDigits :: string where "hexDigits = ''0123456789abcdef''"
definition decDigits :: string where "decDigits = ''0123456789''"

definition hexVal :: "char \<Rightarrow> nat option" where
  "hexVal c = (case indexOf c hexDigits of Some n \<Rightarrow> Some n
                | None \<Rightarrow> map_option (\<lambda>n. n + 10) (indexOf c ''ABCDEF''))"

definition digitVal :: "char \<Rightarrow> nat option" where
  "digitVal c = indexOf c decDigits"

definition escapeChar :: "char \<Rightarrow> string" where
  "escapeChar c =
     (if c = CHR 0x22 then [CHR 0x5C, CHR 0x22]
      else if c = CHR 0x5C then [CHR 0x5C, CHR 0x5C]
      else if c = CHR 0x08 then [CHR 0x5C, CHR ''b'']
      else if c = CHR 0x0C then [CHR 0x5C, CHR ''f'']
      else if c = CHR 0x0A then [CHR 0x5C, CHR ''n'']
      else if c = CHR 0x0D then [CHR 0x5C, CHR ''r'']
      else if c = CHR 0x09 then [CHR 0x5C, CHR ''t'']
      else if (of_char c :: nat) < 32
        then [CHR 0x5C, CHR ''u'', CHR ''0'', CHR ''0'',
              hexDigits ! (of_char c div 16), hexDigits ! (of_char c mod 16)]
      else [c])"

definition quote :: "string \<Rightarrow> string" where
  "quote s = CHR 0x22 # concat (map escapeChar s) @ [CHR 0x22]"

fun showNat :: "nat \<Rightarrow> string" where
  "showNat n = (if n < 10 then [decDigits ! n] else showNat (n div 10) @ [decDigits ! (n mod 10)])"

declare showNat.simps [simp del]

definition showInt :: "int \<Rightarrow> string" where
  "showInt i = (if i < 0 then CHR ''-'' # showNat (nat (- i)) else showNat (nat i))"

text \<open>
  \<^verbatim>\<open>JSON.stringify\<close> with the gap of two spaces: an empty array or object is
  \<^verbatim>\<open>[]\<close> or \<^verbatim>\<open>{}\<close>; otherwise each element or member stands on a line of its own,
  indented two spaces per level, and a member is the quoted key, a colon, a space and
  the value.
\<close>

fun join :: "string \<Rightarrow> string list \<Rightarrow> string" where
  "join sep [] = []"
| "join sep [x] = x"
| "join sep (x # y # ys) = x @ sep @ join sep (y # ys)"

definition newline :: "nat \<Rightarrow> string" where
  "newline n = CHR 0x0A # replicate (2 * n) (CHR '' '')"

primrec stringifyAt :: "json \<Rightarrow> nat \<Rightarrow> string" where
  "stringifyAt JNull n = ''null''"
| "stringifyAt (JBool b) n = (if b then ''true'' else ''false'')"
| "stringifyAt (JNumber i) n = showInt i"
| "stringifyAt (JString s) n = quote s"
| "stringifyAt (JArray xs) n =
     (if xs = [] then ''[]''
      else ''['' @ newline (Suc n)
           @ join ('','' @ newline (Suc n)) (map (\<lambda>x. stringifyAt x (Suc n)) xs)
           @ newline n @ '']'')"
| "stringifyAt (JObject ms) n =
     (if ms = [] then ''{}''
      else ''{'' @ newline (Suc n)
           @ join ('','' @ newline (Suc n))
               (map (\<lambda>ks. quote (fst ks) @ '': '' @ snd ks)
                  (map (map_prod id (\<lambda>v. stringifyAt v (Suc n))) ms))
           @ newline n @ ''}'')"


definition JSON_stringify :: "json \<Rightarrow> string" where
  "JSON_stringify v = stringifyAt v 0"

text \<open>
  \<^verbatim>\<open>JSON.parse\<close>: a recursive-descent parser of the JSON grammar. The recursion of a
  value into its elements is bounded by fuel; \<open>JSON_parse\<close> gives it the length of the
  text; the depth of the recursion does not exceed the number of characters read (the
  lemma \<open>need_le_length\<close> proves it for the texts of \<open>JSON_stringify\<close>).
  A key that occurs twice keeps its first position and takes the last value, as
  property assignment does.
\<close>

definition isWs :: "char \<Rightarrow> bool" where
  "isWs c \<longleftrightarrow> c = CHR '' '' \<or> c = CHR 0x0A \<or> c = CHR 0x0D \<or> c = CHR 0x09"

definition skipWs :: "string \<Rightarrow> string" where
  "skipWs cs = dropWhile isWs cs"

definition unescape :: "char \<Rightarrow> char option" where
  "unescape e =
     (if e = CHR 0x22 then Some (CHR 0x22)
      else if e = CHR 0x5C then Some (CHR 0x5C)
      else if e = CHR ''/'' then Some (CHR ''/'')
      else if e = CHR ''b'' then Some (CHR 0x08)
      else if e = CHR ''f'' then Some (CHR 0x0C)
      else if e = CHR ''n'' then Some (CHR 0x0A)
      else if e = CHR ''r'' then Some (CHR 0x0D)
      else if e = CHR ''t'' then Some (CHR 0x09)
      else None)"

definition hex4 :: "char \<Rightarrow> char \<Rightarrow> char \<Rightarrow> char \<Rightarrow> nat option" where
  "hex4 a b c d =
     (case (hexVal a, hexVal b, hexVal c, hexVal d) of
        (Some x, Some y, Some z, Some w) \<Rightarrow> Some (((x * 16 + y) * 16 + z) * 16 + w)
      | _ \<Rightarrow> None)"

definition consChar :: "char \<Rightarrow> (string \<times> string) option \<Rightarrow> (string \<times> string) option" where
  "consChar c x = map_option (\<lambda>(s, r). (c # s, r)) x"

fun parseChars :: "string \<Rightarrow> (string \<times> string) option" where
  "parseChars [] = None"
| "parseChars (c # cs) =
     (if c = CHR 0x22 then Some ([], cs)
      else if c = CHR 0x5C then
        (case cs of
           [] \<Rightarrow> None
         | e # cs1 \<Rightarrow>
             if e = CHR ''u'' then
               (case cs1 of
                  a # b # x # y # cs2 \<Rightarrow>
                    (case hex4 a b x y of
                       None \<Rightarrow> None
                     | Some n \<Rightarrow> if n < 256 then consChar (char_of n) (parseChars cs2) else None)
                | _ \<Rightarrow> None)
             else (case unescape e of
                     None \<Rightarrow> None
                   | Some ch \<Rightarrow> consChar ch (parseChars cs1)))
      else if (of_char c :: nat) < 32 then None
      else consChar c (parseChars cs))"

fun parseDigits :: "nat \<Rightarrow> string \<Rightarrow> nat \<times> string" where
  "parseDigits acc [] = (acc, [])"
| "parseDigits acc (c # cs) =
     (case digitVal c of None \<Rightarrow> (acc, c # cs) | Some d \<Rightarrow> parseDigits (acc * 10 + d) cs)"

definition parseNat :: "string \<Rightarrow> (nat \<times> string) option" where
  "parseNat cs =
     (case cs of
        [] \<Rightarrow> None
      | c # r \<Rightarrow>
         (case digitVal c of
            None \<Rightarrow> None
          | Some d \<Rightarrow>
              if d = 0 then (case r of [] \<Rightarrow> Some (0, [])
                             | c' # r' \<Rightarrow> if digitVal c' = None then Some (0, r) else None)
              else Some (parseDigits d r)))"

definition noFraction :: "string \<Rightarrow> bool" where
  "noFraction r = (case r of [] \<Rightarrow> True | c # r' \<Rightarrow> c \<noteq> CHR ''.'' \<and> c \<noteq> CHR ''e'' \<and> c \<noteq> CHR ''E'')"

definition parseNumber :: "string \<Rightarrow> (json \<times> string) option" where
  "parseNumber cs =
     (case cs of
        [] \<Rightarrow> None
      | c # r \<Rightarrow>
         (case (if c = CHR ''-'' then map_option (\<lambda>(n, r'). (- int n, r')) (parseNat r)
                else map_option (\<lambda>(n, r'). (int n, r')) (parseNat cs)) of
            None \<Rightarrow> None
          | Some (i, r') \<Rightarrow> if noFraction r' then Some (JNumber i, r') else None))"

definition literal :: "string \<Rightarrow> json \<Rightarrow> string \<Rightarrow> (json \<times> string) option" where
  "literal w v cs = (if take (length w) cs = w then Some (v, drop (length w) cs) else None)"

fun upsert :: "string \<Rightarrow> json \<Rightarrow> (string \<times> json) list \<Rightarrow> (string \<times> json) list" where
  "upsert k v [] = [(k, v)]"
| "upsert k v ((k', v') # ms) = (if k' = k then (k, v) # ms else (k', v') # upsert k v ms)"

definition members :: "(string \<times> json) list \<Rightarrow> (string \<times> json) list" where
  "members ms = foldl (\<lambda>acc kv. upsert (fst kv) (snd kv) acc) [] ms"

fun parseValue :: "nat \<Rightarrow> string \<Rightarrow> (json \<times> string) option"
  and parseElems :: "nat \<Rightarrow> string \<Rightarrow> (json list \<times> string) option"
  and parseMembers :: "nat \<Rightarrow> string \<Rightarrow> ((string \<times> json) list \<times> string) option" where
  "parseValue 0 cs = None"
| "parseValue (Suc fuel) cs =
     (case skipWs cs of
        [] \<Rightarrow> None
      | c # r \<Rightarrow>
          if c = CHR ''['' then
            (case skipWs r of
               [] \<Rightarrow> None
             | d # r' \<Rightarrow> if d = CHR '']'' then Some (JArray [], r')
                         else map_option (\<lambda>(xs, r''). (JArray xs, r'')) (parseElems fuel (d # r')))
          else if c = CHR ''{'' then
            (case skipWs r of
               [] \<Rightarrow> None
             | d # r' \<Rightarrow> if d = CHR ''}'' then Some (JObject [], r')
                         else map_option (\<lambda>(ms, r''). (JObject (members ms), r''))
                                (parseMembers fuel (d # r')))
          else if c = CHR 0x22 then map_option (\<lambda>(s, r'). (JString s, r')) (parseChars r)
          else if c = CHR ''n'' then literal ''null'' JNull (c # r)
          else if c = CHR ''t'' then literal ''true'' (JBool True) (c # r)
          else if c = CHR ''f'' then literal ''false'' (JBool False) (c # r)
          else parseNumber (c # r))"
| "parseElems 0 cs = None"
| "parseElems (Suc fuel) cs =
     (case parseValue fuel cs of
        None \<Rightarrow> None
      | Some (x, r) \<Rightarrow>
         (case skipWs r of
            [] \<Rightarrow> None
          | c # r' \<Rightarrow>
              if c = CHR '','' then map_option (\<lambda>(xs, r''). (x # xs, r'')) (parseElems fuel r')
              else if c = CHR '']'' then Some ([x], r')
              else None))"
| "parseMembers 0 cs = None"
| "parseMembers (Suc fuel) cs =
     (case skipWs cs of
        [] \<Rightarrow> None
      | q # r \<Rightarrow>
          if q \<noteq> CHR 0x22 then None
          else (case parseChars r of
                  None \<Rightarrow> None
                | Some (k, r1) \<Rightarrow>
                   (case skipWs r1 of
                      [] \<Rightarrow> None
                    | c # r2 \<Rightarrow>
                        if c \<noteq> CHR '':'' then None
                        else (case parseValue fuel r2 of
                                None \<Rightarrow> None
                              | Some (v, r3) \<Rightarrow>
                                 (case skipWs r3 of
                                    [] \<Rightarrow> None
                                  | c' # r4 \<Rightarrow>
                                      if c' = CHR '','' then
                                        map_option (\<lambda>(ms, r''). ((k, v) # ms, r''))
                                          (parseMembers fuel r4)
                                      else if c' = CHR ''}'' then Some ([(k, v)], r4)
                                      else None)))))"

declare parseValue.simps(2) [simp del] parseElems.simps(2) [simp del]
  parseMembers.simps(2) [simp del]

definition JSON_parse :: "string \<Rightarrow> json option" where
  "JSON_parse text =
     (case parseValue (length text) text of
        None \<Rightarrow> None
      | Some (v, rest) \<Rightarrow> if skipWs rest = [] then Some v else None)"


lemma indexOf_nth:
  "distinct xs \<Longrightarrow> n < length xs \<Longrightarrow> indexOf (xs ! n) xs = Some n"
proof (induction xs arbitrary: n)
  case Nil
  then show ?case by simp
next
  case (Cons x xs)
  then show ?case by (cases n) auto
qed

lemma indexOf_None: "indexOf c xs = None \<longleftrightarrow> c \<notin> set xs"
  by (induction xs) auto

lemma digitVal_digit: "n < 10 \<Longrightarrow> digitVal (decDigits ! n) = Some n"
  unfolding digitVal_def by (rule indexOf_nth) (simp_all add: decDigits_def)

lemma hexVal_digit: "n < 16 \<Longrightarrow> hexVal (hexDigits ! n) = Some n"
proof -
  assume "n < 16"
  then have "indexOf (hexDigits ! n) hexDigits = Some n"
    by (intro indexOf_nth) (simp_all add: hexDigits_def)
  then show ?thesis by (simp add: hexVal_def)
qed

lemma hex4_low:
  assumes "n < 32"
  shows "hex4 (CHR ''0'') (CHR ''0'') (hexDigits ! (n div 16)) (hexDigits ! (n mod 16)) = Some n"
proof -
  have z: "hexVal (CHR ''0'') = Some 0" by (simp add: hexVal_def hexDigits_def)
  have a: "hexVal (hexDigits ! (n div 16)) = Some (n div 16)"
    using assms by (intro hexVal_digit) simp
  have b: "hexVal (hexDigits ! (n mod 16)) = Some (n mod 16)"
    by (intro hexVal_digit) simp
  show ?thesis by (simp add: hex4_def z a b)
qed

lemma parseChars_escape: "parseChars (escapeChar c @ cs) = consChar c (parseChars cs)"
proof -
  consider (q) "c = CHR 0x22" | (b) "c = CHR 0x5C" | (bs) "c = CHR 0x08" | (ff) "c = CHR 0x0C"
    | (nl) "c = CHR 0x0A" | (cr) "c = CHR 0x0D" | (tb) "c = CHR 0x09"
    | (ctl) "c \<notin> {CHR 0x22, CHR 0x5C, CHR 0x08, CHR 0x0C, CHR 0x0A, CHR 0x0D, CHR 0x09}"
            "(of_char c :: nat) < 32"
    | (plain) "c \<noteq> CHR 0x22" "c \<noteq> CHR 0x5C" "\<not> (of_char c :: nat) < 32"
    by auto
  then show ?thesis
  proof cases
    case ctl
    have lt: "(of_char c :: nat) < 256" using ctl(2) by simp
    show ?thesis using ctl hex4_low [OF ctl(2)] lt
      by (simp add: escapeChar_def)
  next
    case plain
    then have "escapeChar c = [c]" by (auto simp: escapeChar_def)
    then show ?thesis using plain by simp
  qed (simp_all add: escapeChar_def unescape_def)
qed

lemma parseChars_quote:
  "parseChars (concat (map escapeChar s) @ CHR 0x22 # rest) = Some (s, rest)"
  by (induction s) (simp_all add: parseChars_escape consChar_def)

lemma parse_quoted: "parseChars (tl (quote s) @ rest) = Some (s, rest)"
  by (simp add: quote_def parseChars_quote)

definition okRest :: "string \<Rightarrow> bool" where
  "okRest rest = (case rest of [] \<Rightarrow> True
     | c # r \<Rightarrow> digitVal c = None \<and> c \<noteq> CHR ''.'' \<and> c \<noteq> CHR ''e'' \<and> c \<noteq> CHR ''E'')"

lemma parseDigits_showNat:
  "parseDigits acc (showNat n @ rest) = parseDigits (acc * 10 ^ length (showNat n) + n) rest"
proof (induction n arbitrary: acc rest rule: showNat.induct)
  case (1 n)
  show ?case
  proof (cases "n < 10")
    case True
    then show ?thesis by (simp add: showNat.simps [of n] digitVal_digit)
  next
    case False
    have d: "digitVal (decDigits ! (n mod 10)) = Some (n mod 10)"
      by (rule digitVal_digit) simp
    have "parseDigits acc (showNat n @ rest) =
            parseDigits acc (showNat (n div 10) @ (decDigits ! (n mod 10)) # rest)"
      using False by (simp add: showNat.simps [of n])
    also have "\<dots> = parseDigits (acc * 10 ^ length (showNat (n div 10)) + n div 10)
                       ((decDigits ! (n mod 10)) # rest)"
      using "1.IH" [OF False] by simp
    also have "\<dots> = parseDigits ((acc * 10 ^ length (showNat (n div 10)) + n div 10) * 10 + n mod 10) rest"
      by (simp add: d)
    also have "(acc * 10 ^ length (showNat (n div 10)) + n div 10) * 10 + n mod 10 =
               acc * 10 ^ length (showNat n) + n"
      using False by (simp add: showNat.simps [of n] algebra_simps)
    finally show ?thesis .
  qed
qed

lemma parseDigits_stop: "okRest rest \<Longrightarrow> parseDigits acc rest = (acc, rest)"
  by (cases rest) (simp_all add: okRest_def)

lemma showNat_head:
  "\<exists>d ds. showNat n = (decDigits ! d) # ds \<and> d < 10 \<and> (d = 0 \<longrightarrow> n = 0 \<and> ds = [])"
proof (induction n rule: showNat.induct)
  case (1 n)
  show ?case
  proof (cases "n < 10")
    case True
    then show ?thesis by (auto simp: showNat.simps [of n])
  next
    case False
    from "1.IH" [OF False] obtain d ds where
      h: "showNat (n div 10) = (decDigits ! d) # ds" "d < 10" "d = 0 \<longrightarrow> n div 10 = 0 \<and> ds = []"
      by blast
    have "d \<noteq> 0" using h(3) False by auto
    then show ?thesis using h False by (auto simp: showNat.simps [of n])
  qed
qed

lemma parseNat_showNat:
  assumes "okRest rest"
  shows "parseNat (showNat n @ rest) = Some (n, rest)"
proof -
  obtain d ds where h: "showNat n = (decDigits ! d) # ds" "d < 10" "d = 0 \<longrightarrow> n = 0 \<and> ds = []"
    using showNat_head by blast
  have dv: "digitVal (decDigits ! d) = Some d" using h(2) by (rule digitVal_digit)
  show ?thesis
  proof (cases "d = 0")
    case True
    then have "n = 0" "ds = []" using h(3) by auto
    then show ?thesis using assms h(1) dv True
      by (cases rest) (simp_all add: parseNat_def okRest_def)
  next
    case False
    have "parseDigits 0 (showNat n @ rest) = (n, rest)"
      using parseDigits_showNat [of 0 n rest] parseDigits_stop [OF assms] by simp
    moreover have "parseDigits 0 (showNat n @ rest) = parseDigits d (ds @ rest)"
      by (simp add: h(1) dv)
    ultimately show ?thesis using False by (simp add: parseNat_def h(1) dv)
  qed
qed

lemma okRest_noFraction: "okRest rest \<Longrightarrow> noFraction rest"
  by (cases rest) (simp_all add: okRest_def noFraction_def)

lemma showNat_not_minus: "hd (showNat n) \<noteq> CHR ''-''"
proof -
  obtain d ds where h: "showNat n = (decDigits ! d) # ds" "d < 10"
    using showNat_head by blast
  have "d < length decDigits" using h(2) by (simp add: decDigits_def)
  then have "decDigits ! d \<in> set decDigits" by (rule nth_mem)
  moreover have "CHR ''-'' \<notin> set decDigits" by (simp add: decDigits_def)
  ultimately show ?thesis using h(1) by auto
qed

lemma showInt_head: "\<exists>c cs. showInt i = c # cs \<and> c \<in> set ''-0123456789''"
proof -
  obtain d ds where h: "showNat (nat \<bar>i\<bar>) = (decDigits ! d) # ds" "d < 10"
    using showNat_head by blast
  have "d < length decDigits" using h(2) by (simp add: decDigits_def)
  then have "decDigits ! d \<in> set decDigits" by (rule nth_mem)
  then have m: "decDigits ! d \<in> set ''-0123456789''" by (simp add: decDigits_def)
  show ?thesis
  proof (cases "i < 0")
    case True
    then show ?thesis by (simp add: showInt_def)
  next
    case False
    then have "nat \<bar>i\<bar> = nat i" by simp
    then show ?thesis using False h(1) m by (simp add: showInt_def)
  qed
qed

lemma parseNumber_showInt:
  assumes "okRest rest"
  shows "parseNumber (showInt i @ rest) = Some (JNumber i, rest)"
proof (cases "i < 0")
  case True
  then show ?thesis
    using parseNat_showNat [OF assms, of "nat (- i)"] okRest_noFraction [OF assms]
    by (simp add: parseNumber_def showInt_def)
next
  case False
  obtain c cs where s: "showNat (nat i) = c # cs"
    using showNat_head [of "nat i"] by blast
  have "c \<noteq> CHR ''-''" using showNat_not_minus [of "nat i"] s by simp
  then show ?thesis
    using False parseNat_showNat [OF assms, of "nat i"] okRest_noFraction [OF assms] s
    by (simp add: parseNumber_def showInt_def)
qed

primrec need :: "json \<Rightarrow> nat" where
  "need JNull = 1"
| "need (JBool b) = 1"
| "need (JNumber i) = 1"
| "need (JString s) = 1"
| "need (JArray xs) = Suc (sum_list (map (\<lambda>x. Suc (need x)) xs))"
| "need (JObject ms) = Suc (sum_list (map (\<lambda>kn. Suc (snd kn)) (map (map_prod id need) ms)))"

primrec wellFormed :: "json \<Rightarrow> bool" where
  "wellFormed JNull = True"
| "wellFormed (JBool b) = True"
| "wellFormed (JNumber i) = True"
| "wellFormed (JString s) = True"
| "wellFormed (JArray xs) = list_all id (map wellFormed xs)"
| "wellFormed (JObject ms) =
     (distinct (map fst ms) \<and> list_all snd (map (map_prod id wellFormed) ms))"

lemma skipWs_newline: "skipWs (newline n @ cs) = skipWs cs"
proof -
  have "skipWs (replicate k (CHR '' '') @ cs) = skipWs cs" for k
    by (induction k) (simp_all add: skipWs_def isWs_def)
  then show ?thesis by (simp add: newline_def skipWs_def isWs_def)
qed

lemma skipWs_start: "\<not> isWs c \<Longrightarrow> skipWs (c # cs) = c # cs"
  by (simp add: skipWs_def)

lemma parseValue_newline: "parseValue fuel (newline n @ cs) = parseValue fuel cs"
  by (cases fuel) (simp_all add: parseValue.simps(2) skipWs_newline)

lemma parseElems_newline: "parseElems fuel (newline n @ cs) = parseElems fuel cs"
  by (cases fuel) (simp_all add: parseElems.simps(2) parseValue_newline)

lemma parseMembers_newline: "parseMembers fuel (newline n @ cs) = parseMembers fuel cs"
  by (cases fuel) (simp_all add: parseMembers.simps(2) skipWs_newline)

definition startChars :: string where
  "startChars = ''[{ntf'' @ ''-0123456789'' @ [CHR 0x22]"

lemma quote_head: "\<exists>cs. quote s = CHR 0x22 # cs"
  by (simp add: quote_def)

lemma startChars_digits: "c \<in> set ''-0123456789'' \<Longrightarrow> c \<in> set startChars"
  unfolding startChars_def by (simp only: set_append Un_iff) blast

lemma startChars_mem:
  "CHR ''['' \<in> set startChars" "CHR ''{'' \<in> set startChars" "CHR ''n'' \<in> set startChars"
  "CHR ''t'' \<in> set startChars" "CHR ''f'' \<in> set startChars" "CHR 0x22 \<in> set startChars"
  by (simp_all add: startChars_def)

lemma stringifyAt_head: "\<exists>c cs. stringifyAt v n = c # cs \<and> c \<in> set startChars"
proof (cases v)
  case JNull
  then show ?thesis by (simp add: startChars_mem)
next
  case (JBool b)
  then show ?thesis by (cases b) (simp_all add: startChars_mem)
next
  case (JNumber i)
  obtain c cs where "showInt i = c # cs" "c \<in> set ''-0123456789''"
    using showInt_head by blast
  then show ?thesis using JNumber startChars_digits by simp
next
  case (JString s)
  then show ?thesis by (simp add: quote_def startChars_mem)
next
  case (JArray xs)
  then show ?thesis by (cases "xs = []") (simp_all add: startChars_mem)
next
  case (JObject ms)
  then show ?thesis by (cases "ms = []") (simp_all add: startChars_mem)
qed

lemma start_not_ws:
  assumes "c \<in> set startChars"
  shows "\<not> isWs c" "c \<noteq> CHR '']''" "c \<noteq> CHR ''}''"
proof -
  have "CHR '' '' \<notin> set startChars" "CHR 0x0A \<notin> set startChars"
    "CHR 0x0D \<notin> set startChars" "CHR 0x09 \<notin> set startChars"
    "CHR '']'' \<notin> set startChars" "CHR ''}'' \<notin> set startChars"
    by (simp_all add: startChars_def)
  then show "\<not> isWs c" "c \<noteq> CHR '']''" "c \<noteq> CHR ''}''"
    using assms unfolding isWs_def by blast+
qed

lemma okRest_simps:
  "okRest (CHR '','' # cs)" "okRest (newline n @ cs)" "okRest []"
  by (simp_all add: okRest_def newline_def digitVal_def decDigits_def)

lemma upsert_fresh: "k \<notin> fst ` set acc \<Longrightarrow> upsert k v acc = acc @ [(k, v)]"
  by (induction acc) auto

lemma members_distinct:
  "distinct (map fst (acc @ ms)) \<Longrightarrow>
   foldl (\<lambda>acc kv. upsert (fst kv) (snd kv) acc) acc ms = acc @ ms"
proof (induction ms arbitrary: acc)
  case Nil
  then show ?case by simp
next
  case (Cons kv ms)
  have "fst kv \<notin> fst ` set acc" using Cons.prems by auto
  then have u: "upsert (fst kv) (snd kv) acc = acc @ [kv]" by (simp add: upsert_fresh)
  have "distinct (map fst ((acc @ [kv]) @ ms))" using Cons.prems by simp
  from Cons.IH [OF this] show ?case by (simp add: u)
qed

lemma members_id: "distinct (map fst ms) \<Longrightarrow> members ms = ms"
  using members_distinct [of "[]" ms] by (simp add: members_def)

lemma parseValue_start:
  assumes "\<not> isWs c"
  shows "parseValue (Suc fuel) (c # r) =
     (if c = CHR ''['' then
        (case skipWs r of
           [] \<Rightarrow> None
         | d # r' \<Rightarrow> if d = CHR '']'' then Some (JArray [], r')
                     else map_option (\<lambda>(xs, r''). (JArray xs, r'')) (parseElems fuel (d # r')))
      else if c = CHR ''{'' then
        (case skipWs r of
           [] \<Rightarrow> None
         | d # r' \<Rightarrow> if d = CHR ''}'' then Some (JObject [], r')
                     else map_option (\<lambda>(ms, r''). (JObject (members ms), r''))
                            (parseMembers fuel (d # r')))
      else if c = CHR 0x22 then map_option (\<lambda>(s, r'). (JString s, r')) (parseChars r)
      else if c = CHR ''n'' then literal ''null'' JNull (c # r)
      else if c = CHR ''t'' then literal ''true'' (JBool True) (c # r)
      else if c = CHR ''f'' then literal ''false'' (JBool False) (c # r)
      else parseNumber (c # r))"
  by (simp add: parseValue.simps(2) skipWs_start [OF assms])

lemma parseValue_null: "parseValue (Suc fuel) (''null'' @ rest) = Some (JNull, rest)"
  by (simp add: parseValue_start isWs_def literal_def)

lemma parseValue_bool:
  "parseValue (Suc fuel) ((if b then ''true'' else ''false'') @ rest) = Some (JBool b, rest)"
  by (cases b) (simp_all add: parseValue_start isWs_def literal_def)

lemma parseValue_string: "parseValue (Suc fuel) (quote s @ rest) = Some (JString s, rest)"
proof -
  have "quote s @ rest = CHR 0x22 # (concat (map escapeChar s) @ CHR 0x22 # rest)"
    by (simp add: quote_def)
  then show ?thesis
    by (simp add: parseValue_start isWs_def parseChars_quote)
qed

lemma parseValue_number:
  assumes "okRest rest"
  shows "parseValue (Suc fuel) (showInt i @ rest) = Some (JNumber i, rest)"
proof -
  obtain c cs where h: "showInt i = c # cs" "c \<in> set ''-0123456789''"
    using showInt_head by blast
  have ws: "\<not> isWs c" using h(2) by (auto simp: isWs_def)
  have ne: "c \<noteq> CHR ''[''" "c \<noteq> CHR ''{''" "c \<noteq> CHR 0x22" "c \<noteq> CHR ''n''"
    "c \<noteq> CHR ''t''" "c \<noteq> CHR ''f''"
    using h(2) by auto
  have "parseValue (Suc fuel) (c # cs @ rest) = parseNumber (c # cs @ rest)"
    by (simp only: parseValue_start [OF ws] ne if_False)
  then show ?thesis using parseNumber_showInt [OF assms, of i] h(1) by simp
qed

lemma parseValue_empty_array: "parseValue (Suc fuel) (''[]'' @ rest) = Some (JArray [], rest)"
  by (simp add: parseValue_start isWs_def skipWs_def)

lemma parseValue_empty_object: "parseValue (Suc fuel) (''{}'' @ rest) = Some (JObject [], rest)"
  by (simp add: parseValue_start isWs_def skipWs_def)

lemma parseValue_array:
  assumes "d \<in> set startChars"
  shows "parseValue (Suc fuel) (''['' @ newline k @ d # cs) =
           map_option (\<lambda>(xs, r''). (JArray xs, r'')) (parseElems fuel (d # cs))"
proof -
  have ws: "\<not> isWs (CHR ''['')" by (simp add: isWs_def)
  have sk: "skipWs (newline k @ d # cs) = d # cs"
    using start_not_ws(1) [OF assms] by (simp add: skipWs_newline skipWs_start)
  have "''['' @ newline k @ d # cs = CHR ''['' # (newline k @ d # cs)" by simp
  then show ?thesis
    using start_not_ws(2) [OF assms] by (simp add: parseValue_start [OF ws] sk)
qed

lemma parseValue_object:
  assumes "d \<in> set startChars"
  shows "parseValue (Suc fuel) (''{'' @ newline k @ d # cs) =
           map_option (\<lambda>(ms, r''). (JObject (members ms), r'')) (parseMembers fuel (d # cs))"
proof -
  have ws: "\<not> isWs (CHR ''{'')" by (simp add: isWs_def)
  have sk: "skipWs (newline k @ d # cs) = d # cs"
    using start_not_ws(1) [OF assms] by (simp add: skipWs_newline skipWs_start)
  have "''{'' @ newline k @ d # cs = CHR ''{'' # (newline k @ d # cs)" by simp
  then show ?thesis
    using start_not_ws(3) [OF assms] by (simp add: parseValue_start [OF ws] sk)
qed

lemma parseValue_space: "parseValue fuel (CHR '' '' # cs) = parseValue fuel cs"
  by (cases fuel) (simp_all add: parseValue.simps(2) skipWs_def isWs_def)

lemma skipWs_close:
  "skipWs (newline n @ CHR '']'' # rest) = CHR '']'' # rest"
  "skipWs (newline n @ CHR ''}'' # rest) = CHR ''}'' # rest"
  "skipWs (CHR '','' # rest) = CHR '','' # rest"
  "skipWs (CHR '':'' # rest) = CHR '':'' # rest"
  by (simp_all add: skipWs_newline) (simp_all add: skipWs_def isWs_def)

lemma parseElems_join:
  assumes "\<And>x f r. x \<in> set xs \<Longrightarrow> need x \<le> f \<Longrightarrow> okRest r \<Longrightarrow>
             parseValue f (stringifyAt x k @ r) = Some (x, r)"
    and "xs \<noteq> []"
    and "sum_list (map (\<lambda>x. Suc (need x)) xs) \<le> fuel"
  shows "parseElems fuel
           (join (CHR '','' # newline k) (map (\<lambda>x. stringifyAt x k) xs)
              @ newline n @ CHR '']'' # rest) = Some (xs, rest)"
  using assms
proof (induction xs arbitrary: fuel)
  case Nil
  then show ?case by simp
next
  case (Cons x xs)
  obtain f where f: "fuel = Suc f" using Cons.prems(3) by (cases fuel) auto
  have nx: "need x \<le> f" using Cons.prems(3) f by simp
  show ?case
  proof (cases xs)
    case Nil
    have "parseValue f (stringifyAt x k @ newline n @ CHR '']'' # rest) =
            Some (x, newline n @ CHR '']'' # rest)"
      by (rule Cons.prems(1)) (simp_all add: nx okRest_simps)
    then show ?thesis using Nil f
      by (simp add: parseElems.simps(2) skipWs_close)
  next
    case (Cons y ys)
    let ?tail = "join (CHR '','' # newline k) (map (\<lambda>x. stringifyAt x k) (y # ys))
                   @ newline n @ CHR '']'' # rest"
    have v: "parseValue f (stringifyAt x k @ CHR '','' # newline k @ ?tail) =
               Some (x, CHR '','' # newline k @ ?tail)"
      by (rule Cons.prems(1)) (simp_all add: nx okRest_simps)
    have "sum_list (map (\<lambda>x. Suc (need x)) xs) \<le> f"
      using Cons.prems(3) f by simp
    then have t: "parseElems f ?tail = Some (xs, rest)"
      using Cons.IH [of f] Cons.prems(1) Cons by simp
    show ?thesis using Cons f v t
      by (simp add: parseElems.simps(2) skipWs_close parseElems_newline)
  qed
qed

definition showMember :: "nat \<Rightarrow> string \<times> json \<Rightarrow> string" where
  "showMember k kv = quote (fst kv) @ '': '' @ stringifyAt (snd kv) k"

lemma parseMembers_one:
  assumes "parseValue f (stringifyAt v k @ r) = Some (v, r)"
  shows "parseMembers (Suc f) (showMember k (key, v) @ r) =
     (case skipWs r of
        [] \<Rightarrow> None
      | c' # r4 \<Rightarrow>
          if c' = CHR '','' then map_option (\<lambda>(ms, r''). ((key, v) # ms, r'')) (parseMembers f r4)
          else if c' = CHR ''}'' then Some ([(key, v)], r4)
          else None)"
proof -
  have q: "showMember k (key, v) @ r =
     CHR 0x22 # (concat (map escapeChar key) @ CHR 0x22 # (CHR '':'' # CHR '' '' # stringifyAt v k @ r))"
    by (simp add: showMember_def quote_def)
  have ws: "skipWs (CHR 0x22 # cs) = CHR 0x22 # cs" for cs
    by (simp add: skipWs_def isWs_def)
  show ?thesis
    unfolding q
    by (simp add: parseMembers.simps(2) ws parseChars_quote skipWs_close parseValue_space assms)
qed

lemma parseMembers_join:
  assumes "\<And>kv f r. kv \<in> set ms \<Longrightarrow> need (snd kv) \<le> f \<Longrightarrow> okRest r \<Longrightarrow>
             parseValue f (stringifyAt (snd kv) k @ r) = Some (snd kv, r)"
    and "ms \<noteq> []"
    and "sum_list (map (\<lambda>kv. Suc (need (snd kv))) ms) \<le> fuel"
  shows "parseMembers fuel
           (join (CHR '','' # newline k) (map (showMember k) ms)
              @ newline n @ CHR ''}'' # rest) = Some (ms, rest)"
  using assms
proof (induction ms arbitrary: fuel)
  case Nil
  then show ?case by simp
next
  case (Cons kv ms)
  obtain key v where kv: "kv = (key, v)" by (cases kv)
  obtain f where f: "fuel = Suc f" using Cons.prems(3) by (cases fuel) auto
  have nx: "need v \<le> f" using Cons.prems(3) f kv by simp
  show ?case
  proof (cases ms)
    case Nil
    have "parseValue f (stringifyAt v k @ newline n @ CHR ''}'' # rest) =
            Some (v, newline n @ CHR ''}'' # rest)"
      using Cons.prems(1) [of kv f "newline n @ CHR ''}'' # rest"] kv nx
      by (simp add: okRest_simps)
    from parseMembers_one [OF this, of key] show ?thesis using Nil f kv
      by (simp add: skipWs_close)
  next
    case (Cons kv' ms')
    let ?tail = "join (CHR '','' # newline k) (map (showMember k) (kv' # ms'))
                   @ newline n @ CHR ''}'' # rest"
    have v: "parseValue f (stringifyAt v k @ CHR '','' # newline k @ ?tail) =
               Some (v, CHR '','' # newline k @ ?tail)"
      using Cons.prems(1) [of kv f "CHR '','' # newline k @ ?tail"] kv nx
      by (simp add: okRest_simps)
    have "sum_list (map (\<lambda>kv. Suc (need (snd kv))) ms) \<le> f"
      using Cons.prems(3) f by simp
    then have t: "parseMembers f ?tail = Some (ms, rest)"
      using Cons.IH [of f] Cons.prems(1) Cons by simp
    from parseMembers_one [OF v, of key] show ?thesis using Cons f kv t
      by (simp add: skipWs_close parseMembers_newline)
  qed
qed

lemma stringifyAt_object:
  "stringifyAt (JObject ms) n =
     (if ms = [] then ''{}''
      else ''{'' @ newline (Suc n) @ join (CHR '','' # newline (Suc n)) (map (showMember (Suc n)) ms)
           @ newline n @ ''}'')"
  by (simp add: showMember_def [abs_def] comp_def)

lemma join_head:
  assumes "xs \<noteq> []" and "\<And>x. x \<in> set xs \<Longrightarrow> \<exists>c cs. f x = c # cs \<and> c \<in> set startChars"
  shows "\<exists>c cs. join sep (map f xs) = c # cs \<and> c \<in> set startChars"
proof (cases xs)
  case Nil
  then show ?thesis using assms(1) by simp
next
  case (Cons x ys)
  obtain c cs where h: "f x = c # cs" "c \<in> set startChars"
    using assms(2) [of x] Cons by auto
  then show ?thesis using Cons by (cases ys) auto
qed

lemma showMember_head: "\<exists>c cs. showMember k kv = c # cs \<and> c \<in> set startChars"
  by (simp add: showMember_def quote_def startChars_mem)

lemma roundtrip_at:
  "wellFormed v \<Longrightarrow> need v \<le> fuel \<Longrightarrow> okRest rest \<Longrightarrow>
   parseValue fuel (stringifyAt v n @ rest) = Some (v, rest)"
proof (induction v arbitrary: fuel rest n)
  case JNull
  then obtain f where "fuel = Suc f" by (cases fuel) auto
  then show ?case using parseValue_null [of f rest] by simp
next
  case (JBool b)
  then obtain f where "fuel = Suc f" by (cases fuel) auto
  then show ?case using parseValue_bool [of f b rest] by simp
next
  case (JNumber i)
  then obtain f where "fuel = Suc f" by (cases fuel) auto
  then show ?case using parseValue_number [OF JNumber(3), of f i] by simp
next
  case (JString s)
  then obtain f where "fuel = Suc f" by (cases fuel) auto
  then show ?case using parseValue_string [of f s rest] by simp
next
  case (JArray xs)
  obtain f where f: "fuel = Suc f" using JArray.prems(2) by (cases fuel) auto
  show ?case
  proof (cases "xs = []")
    case True
    then show ?thesis using parseValue_empty_array [of f rest] f by simp
  next
    case False
    let ?body = "join (CHR '','' # newline (Suc n)) (map (\<lambda>x. stringifyAt x (Suc n)) xs)"
    obtain d cs where d: "?body = d # cs" "d \<in> set startChars"
      using join_head [OF False, of "\<lambda>x. stringifyAt x (Suc n)"] stringifyAt_head by blast
    have each: "parseValue g (stringifyAt x (Suc n) @ r) = Some (x, r)"
      if "x \<in> set xs" "need x \<le> g" "okRest r" for x g r
      using JArray.IH [OF that(1) _ that(2,3)] JArray.prems(1) that(1)
      by (simp add: list_all_iff)
    have "sum_list (map (\<lambda>x. Suc (need x)) xs) \<le> f"
      using JArray.prems(2) f by simp
    from parseElems_join [OF each False this, where n = n and rest = rest]
    have e: "parseElems f (?body @ newline n @ CHR '']'' # rest) = Some (xs, rest)" by simp
    have "stringifyAt (JArray xs) n @ rest =
            ''['' @ newline (Suc n) @ d # (cs @ newline n @ CHR '']'' # rest)"
      using False d(1) by simp
    then show ?thesis
      using parseValue_array [OF d(2), of f "Suc n" "cs @ newline n @ CHR '']'' # rest"] e d(1) f
      by simp
  qed
next
  case (JObject ms)
  obtain f where f: "fuel = Suc f" using JObject.prems(2) by (cases fuel) auto
  show ?case
  proof (cases "ms = []")
    case True
    then show ?thesis using parseValue_empty_object [of f rest] f by simp
  next
    case False
    let ?body = "join (CHR '','' # newline (Suc n)) (map (showMember (Suc n)) ms)"
    obtain d cs where d: "?body = d # cs" "d \<in> set startChars"
      using join_head [OF False, of "showMember (Suc n)"] showMember_head by blast
    have each: "parseValue g (stringifyAt (snd kv) (Suc n) @ r) = Some (snd kv, r)"
      if "kv \<in> set ms" "need (snd kv) \<le> g" "okRest r" for kv g r
    proof -
      have "snd kv \<in> Basic_BNFs.snds kv" by (cases kv) simp
      moreover have "wellFormed (snd kv)"
        using JObject.prems(1) that(1) by (auto simp: list_all_iff)
      ultimately show ?thesis using JObject.IH [OF that(1) _ _ that(2,3)] by blast
    qed
    have "sum_list (map (\<lambda>kv. Suc (need (snd kv))) ms) \<le> f"
      using JObject.prems(2) f by (simp add: comp_def)
    from parseMembers_join [OF each False this, where n = n and rest = rest]
    have e: "parseMembers f (?body @ newline n @ CHR ''}'' # rest) = Some (ms, rest)" by simp
    have m: "members ms = ms" using JObject.prems(1) by (simp add: members_id)
    have "stringifyAt (JObject ms) n @ rest =
            ''{'' @ newline (Suc n) @ d # (cs @ newline n @ CHR ''}'' # rest)"
      using False d(1) by (simp add: stringifyAt_object del: stringifyAt.simps)
    then show ?thesis
      using parseValue_object [OF d(2), of f "Suc n" "cs @ newline n @ CHR ''}'' # rest"] e d(1) f m
      by simp
  qed
qed

lemma join_length:
  assumes "\<And>x. x \<in> set xs \<Longrightarrow> g x \<le> length (f x)"
  shows "sum_list (map (\<lambda>x. Suc (g x)) xs) \<le> Suc (length (join (c # sep) (map f xs)))"
  using assms
proof (induction xs)
  case Nil
  then show ?case by simp
next
  case (Cons x xs)
  have x: "g x \<le> length (f x)" using Cons.prems by simp
  have ih: "sum_list (map (\<lambda>x. Suc (g x)) xs) \<le> Suc (length (join (c # sep) (map f xs)))"
    using Cons by simp
  show ?case
  proof (cases xs)
    case Nil
    then show ?thesis using x by simp
  next
    case (Cons y ys)
    then show ?thesis using x ih by simp
  qed
qed

lemma need_le_length: "need v \<le> length (stringifyAt v n)"
proof (induction v arbitrary: n)
  case (JNumber i)
  obtain c cs where "showInt i = c # cs" using showInt_head by blast
  then show ?case by simp
next
  case (JString s)
  then show ?case by (simp add: quote_def)
next
  case (JArray xs)
  show ?case
  proof (cases "xs = []")
    case True
    then show ?thesis by simp
  next
    case False
    have "sum_list (map (\<lambda>x. Suc (need x)) xs) \<le>
            Suc (length (join (CHR '','' # newline (Suc n)) (map (\<lambda>x. stringifyAt x (Suc n)) xs)))"
      by (rule join_length) (rule JArray.IH)
    then show ?thesis using False by simp
  qed
next
  case (JObject ms)
  show ?case
  proof (cases "ms = []")
    case True
    then show ?thesis by simp
  next
    case False
    have "need (snd kv) \<le> length (showMember (Suc n) kv)" if "kv \<in> set ms" for kv
    proof -
      have "snd kv \<in> Basic_BNFs.snds kv" by (cases kv) simp
      have "need (snd kv) \<le> length (stringifyAt (snd kv) (Suc n))"
        by (rule JObject.IH [OF that \<open>snd kv \<in> Basic_BNFs.snds kv\<close>])
      then show ?thesis by (simp add: showMember_def)
    qed
    then have "sum_list (map (\<lambda>kv. Suc (need (snd kv))) ms) \<le>
            Suc (length (join (CHR '','' # newline (Suc n)) (map (showMember (Suc n)) ms)))"
      by (rule join_length)
    then show ?thesis using False by (simp add: stringifyAt_object comp_def del: stringifyAt.simps)
  qed
qed simp_all

lemma JSON_roundtrip: "wellFormed v \<Longrightarrow> JSON_parse (JSON_stringify v) = Some v"
proof -
  assume wf: "wellFormed v"
  have "parseValue (length (JSON_stringify v)) (stringifyAt v 0 @ []) = Some (v, [])"
    using roundtrip_at [OF wf _ okRest_simps(3), of "length (JSON_stringify v)" 0] need_le_length [of v 0]
    by (simp add: JSON_stringify_def)
  then show ?thesis by (simp add: JSON_parse_def JSON_stringify_def skipWs_def)
qed

subsection \<open>exportProof and importProof\<close>

text \<open>
  The objects of a force-exit proof as JSON values, their keys in the order of the
  interfaces of \<^verbatim>\<open>types.ts\<close> (for the proof itself, the order of the object literal
  in \<^verbatim>\<open>generateForceExitProof\<close>). The optional \<^verbatim>\<open>batchId\<close> is a member only when
  it is defined: \<^verbatim>\<open>JSON.stringify\<close> leaves undefined properties out.
\<close>

definition intentValue :: "OrderIntent \<Rightarrow> json" where
  "intentValue x = JObject
     [(''marketId'', JString (oi_marketId x)),
      (''side'', JString (case oi_side x of buy \<Rightarrow> ''buy'' | sell \<Rightarrow> ''sell'')),
      (''quantity'', JString (oi_quantity x)),
      (''limitPrice'', JString (oi_limitPrice x)),
      (''nonce'', JNumber (oi_nonce x)),
      (''expiresAt'', JNumber (oi_expiresAt x)),
      (''signature'', JString (oi_signature x)),
      (''userAddress'', JString (oi_userAddress x))]"

definition fillValue :: "ChannelFill \<Rightarrow> json" where
  "fillValue x = JObject
     ([(''orderId'', JString (cf_orderId x)),
       (''fillPrice'', JString (cf_fillPrice x)),
       (''fillQuantity'', JString (cf_fillQuantity x)),
       (''fee'', JString (cf_fee x)),
       (''timestamp'', JNumber (cf_timestamp x))]
      @ (case cf_batchId x of None \<Rightarrow> [] | Some b \<Rightarrow> [(''batchId'', JString b)])
      @ [(''operatorSignature'', JString (cf_operatorSignature x))])"

definition stateValue :: "StateUpdate \<Rightarrow> json" where
  "stateValue u = JObject
     [(''channelId'', JString (su_channelId u)),
      (''sequence'', JNumber (su_sequence u)),
      (''balances'', JObject [(''base'', JString (cb_base (su_balances u))),
                              (''quote'', JString (cb_quote (su_balances u)))]),
      (''cumulativeFees'', JString (su_cumulativeFees u)),
      (''timestamp'', JNumber (su_timestamp u)),
      (''userSignature'', JString (su_userSignature u)),
      (''operatorSignature'', JString (su_operatorSignature u))]"

definition proofValue :: "ForceExitProof \<Rightarrow> json" where
  "proofValue p = JObject
     [(''channelId'', JString (fp_channelId p)),
      (''latestState'', stateValue (fp_latestState p)),
      (''orderIntents'', JArray (map intentValue (fp_orderIntents p))),
      (''fills'', JArray (map fillValue (fp_fills p))),
      (''generatedAt'', JNumber (fp_generatedAt p))]"

definition exportProof :: "int \<Rightarrow> Manager \<Rightarrow> string \<Rightarrow> string option" where
  "exportProof now m channelId =
     (case generateForceExitProof now m channelId of
        None \<Rightarrow> None
      | Some proof \<Rightarrow> Some (JSON_stringify (proofValue proof)))"

text \<open>
  \<^verbatim>\<open>importProof\<close> returns what \<^verbatim>\<open>JSON.parse\<close> returns (the cast to
  \<^verbatim>\<open>ForceExitProof\<close> checks nothing at run time), or null when it throws.
\<close>

definition importProof :: "string \<Rightarrow> json option" where
  "importProof proofJson = JSON_parse proofJson"

definition demoHistory :: "Call list" where
  "demoHistory = [demoInit, UpdateChannelState ''c1'' (demoUpdate 1 5),
                  RecordOrderIntent ''c1'' demoIntent, RecordFill ''c1'' demoFill]"

lemma wellFormed_intentValue: "wellFormed (intentValue x)"
  by (simp add: intentValue_def)

lemma wellFormed_fillValue: "wellFormed (fillValue x)"
  by (cases "cf_batchId x") (simp_all add: fillValue_def)

lemma wellFormed_stateValue: "wellFormed (stateValue u)"
  by (simp add: stateValue_def)

lemma wellFormed_proofValue: "wellFormed (proofValue p)"
  by (simp add: proofValue_def wellFormed_stateValue list_all_iff
      wellFormed_intentValue wellFormed_fillValue)

text \<open>
  C9. For every manager and channel for which \<^verbatim>\<open>generateForceExitProof\<close> gives a
  proof, \<^verbatim>\<open>exportProof\<close> gives a text, and \<^verbatim>\<open>importProof\<close> of that text is the
  JSON value of the proof: the same members with the same values, in the same order.
\<close>

theorem import_export_roundtrip:
  assumes "generateForceExitProof now m channelId = Some p"
  shows "\<exists>text. exportProof now m channelId = Some text \<and>
                importProof text = Some (proofValue p)"
  using assms JSON_roundtrip [OF wellFormed_proofValue, of p]
  by (simp add: exportProof_def importProof_def)

lemma demo_history_proof:
  "generateForceExitProof 99 (run demoRecover newManager demoHistory) ''c1'' =
     Some \<lparr>fp_channelId = ''c1'', fp_latestState = demoUpdate 1 5,
           fp_orderIntents = [demoIntent], fp_fills = [demoFill], fp_generatedAt = 99\<rparr>"
proof -
  have t: "track demoRecover newManager ''c1'' None demoHistory =
             Some (Some (demoUpdate 1 5), [demoIntent], [demoFill])"
    using demo_channel demo_verify [of 1 5]
    by (simp add: demoHistory_def demoInit_def update_accepted accepts_def
        snd_initializeChannel fst_initializeChannel demoUpdate_def)
  show ?thesis
    using generate_of_agrees [OF agrees_history, of 99 demoRecover demoHistory "''c1''"]
    by (simp add: t demoUpdate_def demoIntent_def demoFill_def)
qed

theorem import_export_roundtrip_witness:
  "generateForceExitProof 99 (run demoRecover newManager demoHistory) ''c1'' =
     Some \<lparr>fp_channelId = ''c1'', fp_latestState = demoUpdate 1 5,
           fp_orderIntents = [demoIntent], fp_fills = [demoFill], fp_generatedAt = 99\<rparr> \<and>
   (\<exists>text. exportProof 99 (run demoRecover newManager demoHistory) ''c1'' = Some text \<and>
      importProof text =
        Some (proofValue \<lparr>fp_channelId = ''c1'', fp_latestState = demoUpdate 1 5,
           fp_orderIntents = [demoIntent], fp_fills = [demoFill], fp_generatedAt = 99\<rparr>))"
  using import_export_roundtrip [OF demo_history_proof] demo_history_proof by simp

end
